theory Spec2Isabelle
  imports Main
begin

section \<open>Text\<close>

text \<open>
  A Python \<open>str\<close> is modelled as an Isabelle \<open>string\<close>: a list of 8-bit characters,
  each read as the code point of the same number (U+0000 to U+00FF). Upper-casing can
  leave this range (U+00B5 and U+00FF) and lengthen the text (U+00DF), so its result
  is a list of code points.
\<close>

definition code_points :: "string \<Rightarrow> nat list" where
  "code_points s = map of_char s"

text \<open>The whitespace code points, those \<open>str.isspace\<close> accepts.\<close>

definition cp_isspace :: "nat \<Rightarrow> bool" where
  "cp_isspace n =
     ((9 \<le> n \<and> n \<le> 13) \<or> (28 \<le> n \<and> n \<le> 32) \<or> n = 133 \<or> n = 160 \<or> n = 5760
      \<or> (8192 \<le> n \<and> n \<le> 8202) \<or> n = 8232 \<or> n = 8233 \<or> n = 8239 \<or> n = 8287
      \<or> n = 12288)"

definition py_isspace :: "char \<Rightarrow> bool" where
  "py_isspace c = cp_isspace (of_char c)"

text \<open>\<open>s.strip()\<close>: leading and trailing whitespace removed.\<close>

definition py_strip :: "string \<Rightarrow> string" where
  "py_strip s = rev (dropWhile py_isspace (rev (dropWhile py_isspace s)))"

text \<open>
  \<open>c.upper()\<close> for a character of the range: the letters \<open>a\<close> to \<open>z\<close> and the
  lower-case letters U+00E0 to U+00FE other than the division sign U+00F7 move down by
  32, the micro sign U+00B5 becomes the Greek capital mu U+039C, the sharp s U+00DF
  becomes \<open>SS\<close>, U+00FF becomes U+0178, and every other character stays.
\<close>

definition py_upper_char :: "char \<Rightarrow> nat list" where
  "py_upper_char c =
     (let n = (of_char c :: nat) in
      if 97 \<le> n \<and> n \<le> 122 then [n - 32]
      else if n = 181 then [924]
      else if n = 223 then [83, 83]
      else if n = 255 then [376]
      else if 224 \<le> n \<and> n \<le> 254 \<and> n \<noteq> 247 then [n - 32]
      else [n])"

text \<open>\<open>s.upper()\<close>.\<close>

definition py_upper :: "string \<Rightarrow> nat list" where
  "py_upper s = concat (map py_upper_char s)"

text \<open>The code points up to U+00FF that upper-casing changes.\<close>

definition upper_changes :: "nat \<Rightarrow> bool" where
  "upper_changes n =
     ((97 \<le> n \<and> n \<le> 122) \<or> n = 181 \<or> (223 \<le> n \<and> n \<le> 255 \<and> n \<noteq> 247))"

text \<open>
  \<open>s.split(sep)\<close> for a one-character separator: the pieces between the separators,
  empty pieces kept, so the result always has one more element than \<open>s\<close> has
  separators.
\<close>

fun py_split :: "char \<Rightarrow> string \<Rightarrow> string list" where
  "py_split sep [] = [[]]"
| "py_split sep (c # cs) =
     (if c = sep then [] # py_split sep cs
      else (case py_split sep cs of
              [] \<Rightarrow> [[c]]
            | t # ts \<Rightarrow> (c # t) # ts))"

text \<open>\<open>sep.join(parts)\<close>, used to state what \<open>py_split\<close> computes.\<close>

fun py_join :: "char \<Rightarrow> string list \<Rightarrow> string" where
  "py_join sep [] = []"
| "py_join sep [t] = t"
| "py_join sep (t # u # ts) = t @ sep # py_join sep (u # ts)"

section \<open>Symbol lists\<close>

text \<open>
  Every tool that takes \<open>symbols\<close> starts with
  \<^verbatim>\<open>ticker_list = [s.strip().upper() for s in symbols.split(',')]\<close>
\<close>

definition ticker_list :: "string \<Rightarrow> nat list list" where
  "ticker_list symbols = map (\<lambda>s. py_upper (py_strip s)) (py_split (CHR '','') symbols)"

section \<open>Python values\<close>

text \<open>
  An exception is modelled by its class name and the text \<open>str(e)\<close> gives for it.
  Only exceptions derived from \<open>Exception\<close> are modelled: they are the ones pandas,
  the json module and the interpreter raise on the paths below.
\<close>

datatype exn = Exn (exn_class: string) (exn_str: string)

text \<open>
  A float is the not-a-number value, an infinity, or a finite number. A finite float is
  identified by its \<open>repr\<close>, the shortest decimal text that reads back as the same
  float, which is also what the json module writes for it.
\<close>

datatype pyfloat = FNan | FInf | FNegInf | FFinite string

text \<open>
  Scalars: the JSON-native ones and \<open>SObj cls na s\<close> for an instance of any other
  class that is not a container (a \<open>datetime\<close>, a pandas \<open>Timestamp\<close>, \<open>NaT\<close>):
  \<open>cls\<close> is its class name, \<open>na\<close> says whether \<open>pd.isna\<close> holds of it and \<open>s\<close> is
  its \<open>str()\<close>.
\<close>

datatype scalar =
    SNone
  | SBool bool
  | SInt int
  | SFloat pyfloat
  | SStr string
  | SObj string bool string

text \<open>
  Dictionary keys and index labels: strings, integers, booleans, \<open>None\<close>, and
  \<open>KObj cls s\<close> for any other hashable object (a tuple, a \<open>Timestamp\<close>) of class
  \<open>cls\<close> with \<open>str()\<close> \<open>s\<close>. Float keys are not modelled.
\<close>

datatype pykey = KStr string | KInt int | KBool bool | KNone | KObj string string

text \<open>
  Key equality is Python's \<open>==\<close>: \<open>True == 1\<close> and \<open>False == 0\<close>, every other
  pair is equal when it is the same value.
\<close>

fun key_int :: "pykey \<Rightarrow> int option" where
  "key_int (KInt i) = Some i"
| "key_int (KBool b) = Some (if b then 1 else 0)"
| "key_int _ = None"

definition key_eq :: "pykey \<Rightarrow> pykey \<Rightarrow> bool" where
  "key_eq a b =
     (case (key_int a, key_int b) of
        (Some i, Some j) \<Rightarrow> i = j
      | (None, None) \<Rightarrow> a = b
      | _ \<Rightarrow> False)"

text \<open>
  A \<open>dict\<close> is the list of its items in insertion order. \<open>d[k] = v\<close> replaces the value
  of an equal key where it stands (the old key object is kept) and appends otherwise;
  \<open>dict(pairs)\<close> inserts the pairs one after the other.
\<close>

fun dict_set :: "(pykey \<times> 'v) list \<Rightarrow> pykey \<Rightarrow> 'v \<Rightarrow> (pykey \<times> 'v) list" where
  "dict_set [] k v = [(k, v)]"
| "dict_set ((k', v') # d) k v =
     (if key_eq k' k then (k', v) # d else (k', v') # dict_set d k v)"

definition dict_of :: "(pykey \<times> 'v) list \<Rightarrow> (pykey \<times> 'v) list" where
  "dict_of pairs = foldl (\<lambda>d (k, v). dict_set d k v) [] pairs"

text \<open>\<open>d.get(k)\<close>: the value of the first (and only) item whose key equals \<open>k\<close>.\<close>

fun dict_get :: "(pykey \<times> 'v) list \<Rightarrow> pykey \<Rightarrow> 'v option" where
  "dict_get [] k = None"
| "dict_get ((k', v) # d) k = (if key_eq k' k then Some v else dict_get d k)"

text \<open>
  The values \<open>convert_to_json_serializable\<close> returns: scalars, lists and dicts. This
  is the spec's NormalizedValue, except that scalars still include not-a-number and
  objects of other classes, which the function passes through inside tables.
\<close>

datatype normalized =
    NScalar scalar
  | NList "normalized list"
  | NDict "(pykey \<times> normalized) list"

subsection \<open>pandas objects\<close>

text \<open>
  The row labels of a table: a \<open>RangeIndex\<close> (name, start, step), a flat \<open>Index\<close>
  (name, one label per row) or a \<open>MultiIndex\<close> (one name per level, one tuple of labels
  per row). Index names and column labels are strings; cells are scalars.
\<close>

datatype pd_index =
    RangeIndex "string option" int int
  | Index "string option" "scalar list"
  | MultiIndex "string option list" "scalar list list"

datatype dataframe =
  DataFrame (df_index: pd_index) (df_columns: "string list") (df_rows: "scalar list list")

text \<open>The values the tools hand to \<open>format_response\<close>.\<close>

datatype pyval =
    PScalar scalar
  | PList "pyval list"
  | PTuple "pyval list"
  | PDict "(pykey \<times> pyval) list"
  | PDataFrame dataframe
  | PSeries "(pykey \<times> scalar) list"

text \<open>A normalized value is a Python value again.\<close>

fun raw :: "normalized \<Rightarrow> pyval"
and raw_list :: "normalized list \<Rightarrow> pyval list"
and raw_items :: "(pykey \<times> normalized) list \<Rightarrow> (pykey \<times> pyval) list" where
  "raw (NScalar s) = PScalar s"
| "raw (NList xs) = PList (raw_list xs)"
| "raw (NDict kvs) = PDict (raw_items kvs)"
| "raw_list [] = []"
| "raw_list (x # xs) = raw x # raw_list xs"
| "raw_items [] = []"
| "raw_items ((k, v) # kvs) = (k, raw v) # raw_items kvs"

subsection \<open>Decimal numerals\<close>

definition digit_char :: "nat \<Rightarrow> char" where
  "digit_char d = char_of (48 + d)"

fun string_of_nat :: "nat \<Rightarrow> string" where
  "string_of_nat n =
     (if n < 10 then [digit_char n] else string_of_nat (n div 10) @ [digit_char (n mod 10)])"

declare string_of_nat.simps [simp del]

definition string_of_int :: "int \<Rightarrow> string" where
  "string_of_int i =
     (if i < 0 then CHR ''-'' # string_of_nat (nat (- i)) else string_of_nat (nat i))"

subsection \<open>\<open>DataFrame.reset_index\<close> and \<open>DataFrame.to_dict\<close>\<close>

text \<open>\<open>data.index.name\<close>; a \<open>MultiIndex\<close> keeps its names per level.\<close>

fun index_name :: "pd_index \<Rightarrow> string option" where
  "index_name (RangeIndex name start step) = name"
| "index_name (Index name labels) = name"
| "index_name (MultiIndex names tuples) = None"

fun is_RangeIndex :: "pd_index \<Rightarrow> bool" where
  "is_RangeIndex (RangeIndex name start step) = True"
| "is_RangeIndex _ = False"

text \<open>Truth value of an optional string: \<open>None\<close> and the empty string are false.\<close>

fun truthy :: "string option \<Rightarrow> bool" where
  "truthy None = False"
| "truthy (Some s) = (s \<noteq> [])"

text \<open>
  The column names \<open>reset_index\<close> gives the index levels: the name of the level, and
  for an unnamed level \<open>index\<close> (\<open>level_0\<close> when a column \<open>index\<close> exists) for a
  flat index and \<open>level_i\<close> for level \<open>i\<close> of a \<open>MultiIndex\<close>.
\<close>

definition default_index_name :: "string list \<Rightarrow> string" where
  "default_index_name cols = (if ''index'' \<notin> set cols then ''index'' else ''level_0'')"

definition fill_missing_names :: "string option list \<Rightarrow> string list" where
  "fill_missing_names names =
     map (\<lambda>(i, n). case n of None \<Rightarrow> ''level_'' @ string_of_nat i | Some s \<Rightarrow> s)
       (enumerate 0 names)"

fun level_names :: "pd_index \<Rightarrow> string list \<Rightarrow> string list" where
  "level_names (RangeIndex name start step) cols =
     [case name of None \<Rightarrow> default_index_name cols | Some s \<Rightarrow> s]"
| "level_names (Index name labels) cols =
     [case name of None \<Rightarrow> default_index_name cols | Some s \<Rightarrow> s]"
| "level_names (MultiIndex names tuples) cols = fill_missing_names names"

text \<open>The labels of each row, one per level, for a table of \<open>n\<close> rows.\<close>

fun index_rows :: "pd_index \<Rightarrow> nat \<Rightarrow> scalar list list" where
  "index_rows (RangeIndex name start step) n = map (\<lambda>i. [SInt (start + int i * step)]) [0..<n]"
| "index_rows (Index name labels) n = map (\<lambda>l. [l]) labels"
| "index_rows (MultiIndex names tuples) n = tuples"

text \<open>
  \<open>reset_index\<close> inserts the levels at position 0 from the last level to the first;
  \<open>DataFrame.insert\<close> refuses a name that is already a column.
\<close>

fun insert_levels :: "string list \<Rightarrow> string list \<Rightarrow> exn + string list" where
  "insert_levels [] cols = Inr cols"
| "insert_levels (n # ns) cols =
     (case insert_levels ns cols of
        Inl e \<Rightarrow> Inl e
      | Inr cols' \<Rightarrow>
          if n \<in> set cols'
          then Inl (Exn ''ValueError'' (''cannot insert '' @ n @ '', already exists''))
          else Inr (n # cols'))"

definition reset_index :: "dataframe \<Rightarrow> exn + dataframe" where
  "reset_index df =
     (case insert_levels (level_names (df_index df) (df_columns df)) (df_columns df) of
        Inl e \<Rightarrow> Inl e
      | Inr cols' \<Rightarrow>
          Inr (DataFrame (RangeIndex None 0 1) cols'
                 (map (\<lambda>(labels, row). labels @ row)
                    (zip (index_rows (df_index df) (length (df_rows df))) (df_rows df)))))"

text \<open>\<open>to_dict(orient='records')\<close>: one \<open>dict(zip(columns, row))\<close> per row.\<close>

definition row_record :: "string list \<Rightarrow> scalar list \<Rightarrow> normalized" where
  "row_record cols row = NDict (dict_of (zip (map KStr cols) (map NScalar row)))"

definition to_dict_records :: "dataframe \<Rightarrow> normalized" where
  "to_dict_records df = NList (map (row_record (df_columns df)) (df_rows df))"

text \<open>\<open>Series.to_dict()\<close>: the dict of the (label, value) pairs.\<close>

definition series_to_dict :: "(pykey \<times> scalar) list \<Rightarrow> normalized" where
  "series_to_dict items = NDict (dict_of (map (\<lambda>(k, v). (k, NScalar v)) items))"

section \<open>The normalizer\<close>

text \<open>\<open>pd.isna\<close> on a scalar.\<close>

fun pd_isna :: "scalar \<Rightarrow> bool" where
  "pd_isna SNone = True"
| "pd_isna (SFloat FNan) = True"
| "pd_isna (SObj cls na s) = na"
| "pd_isna _ = False"

text \<open>
  \<^verbatim>\<open>
  def convert_to_json_serializable(data):
      if isinstance(data, pd.DataFrame):
          if data.index.name or not isinstance(data.index, pd.RangeIndex):
              data = data.reset_index()
          return data.to_dict(orient='records')
      elif isinstance(data, pd.Series):
          return data.to_dict()
      elif isinstance(data, dict):
          return {k: convert_to_json_serializable(v) for k, v in data.items()}
      elif isinstance(data, (list, tuple)):
          return [convert_to_json_serializable(item) for item in data]
      elif pd.isna(data):
          return None
      else:
          return data
  \<close>
  The comprehensions stop at the first element whose conversion raises.
\<close>

fun convert_to_json_serializable :: "pyval \<Rightarrow> exn + normalized"
and convert_list :: "pyval list \<Rightarrow> exn + normalized list"
and convert_items :: "(pykey \<times> pyval) list \<Rightarrow> exn + (pykey \<times> normalized) list" where
  "convert_to_json_serializable (PDataFrame df) =
     (if truthy (index_name (df_index df)) \<or> \<not> is_RangeIndex (df_index df)
      then (case reset_index df of
              Inl e \<Rightarrow> Inl e
            | Inr df' \<Rightarrow> Inr (to_dict_records df'))
      else Inr (to_dict_records df))"
| "convert_to_json_serializable (PSeries items) = Inr (series_to_dict items)"
| "convert_to_json_serializable (PDict items) =
     (case convert_items items of Inl e \<Rightarrow> Inl e | Inr items' \<Rightarrow> Inr (NDict items'))"
| "convert_to_json_serializable (PList xs) =
     (case convert_list xs of Inl e \<Rightarrow> Inl e | Inr ys \<Rightarrow> Inr (NList ys))"
| "convert_to_json_serializable (PTuple xs) =
     (case convert_list xs of Inl e \<Rightarrow> Inl e | Inr ys \<Rightarrow> Inr (NList ys))"
| "convert_to_json_serializable (PScalar s) =
     (if pd_isna s then Inr (NScalar SNone) else Inr (NScalar s))"
| "convert_list [] = Inr []"
| "convert_list (x # xs) =
     (case convert_to_json_serializable x of
        Inl e \<Rightarrow> Inl e
      | Inr y \<Rightarrow> (case convert_list xs of Inl e \<Rightarrow> Inl e | Inr ys \<Rightarrow> Inr (y # ys)))"
| "convert_items [] = Inr []"
| "convert_items ((k, v) # kvs) =
     (case convert_to_json_serializable v of
        Inl e \<Rightarrow> Inl e
      | Inr y \<Rightarrow> (case convert_items kvs of Inl e \<Rightarrow> Inl e | Inr ys \<Rightarrow> Inr ((k, y) # ys)))"

section \<open>\<open>json.dumps\<close> with \<open>indent=2\<close>\<close>

text \<open>
  The encoder of the json module as \<open>dumps(obj, indent=2)\<close> configures it:
  \<open>ensure_ascii\<close>, separators \<open>,\<close> and \<open>: \<close>, every element of a non-empty list
  or dict on a line of its own, indented by two spaces per nesting level.
\<close>

definition hex_char :: "nat \<Rightarrow> char" where
  "hex_char d = (if d < 10 then char_of (48 + d) else char_of (87 + d))"

definition escape_char :: "char \<Rightarrow> string" where
  "escape_char c =
     (let n = (of_char c :: nat) in
      if n = 34 then [CHR 0x5C, CHR 0x22]
      else if n = 92 then [CHR 0x5C, CHR 0x5C]
      else if n = 10 then [CHR 0x5C, CHR ''n'']
      else if n = 13 then [CHR 0x5C, CHR ''r'']
      else if n = 9 then [CHR 0x5C, CHR ''t'']
      else if n = 12 then [CHR 0x5C, CHR ''f'']
      else if n = 8 then [CHR 0x5C, CHR ''b'']
      else if 32 \<le> n \<and> n \<le> 126 then [c]
      else [CHR 0x5C, CHR ''u'', CHR ''0'', CHR ''0'', hex_char (n div 16), hex_char (n mod 16)])"

definition encode_str :: "string \<Rightarrow> string" where
  "encode_str s = CHR 0x22 # concat (map escape_char s) @ [CHR 0x22]"

fun encode_float :: "pyfloat \<Rightarrow> string" where
  "encode_float FNan = ''NaN''"
| "encode_float FInf = ''Infinity''"
| "encode_float FNegInf = ''-Infinity''"
| "encode_float (FFinite r) = r"

text \<open>
  The \<open>default\<close> argument: absent, or \<open>str\<close>. It is called on a value of a class the
  encoder does not know, and its result is encoded in place of the value.
\<close>

datatype default_fn = NoDefault | DefaultStr

fun encode_scalar :: "default_fn \<Rightarrow> scalar \<Rightarrow> exn + string" where
  "encode_scalar d SNone = Inr ''null''"
| "encode_scalar d (SBool b) = Inr (if b then ''true'' else ''false'')"
| "encode_scalar d (SInt i) = Inr (string_of_int i)"
| "encode_scalar d (SFloat f) = Inr (encode_float f)"
| "encode_scalar d (SStr s) = Inr (encode_str s)"
| "encode_scalar DefaultStr (SObj cls na s) = Inr (encode_str s)"
| "encode_scalar NoDefault (SObj cls na s) =
     Inl (Exn ''TypeError'' (''Object of type '' @ cls @ '' is not JSON serializable''))"

fun encode_key :: "pykey \<Rightarrow> exn + string" where
  "encode_key (KStr s) = Inr s"
| "encode_key (KBool b) = Inr (if b then ''true'' else ''false'')"
| "encode_key KNone = Inr ''null''"
| "encode_key (KInt i) = Inr (string_of_int i)"
| "encode_key (KObj cls s) =
     Inl (Exn ''TypeError'' (''keys must be str, int, float, bool or None, not '' @ cls))"

definition newline_indent :: "nat \<Rightarrow> string" where
  "newline_indent lvl = CHR 0x0A # replicate (2 * lvl) (CHR '' '')"

fun join_with :: "string \<Rightarrow> string list \<Rightarrow> string" where
  "join_with sep [] = []"
| "join_with sep (c # cs) = c @ concat (map (\<lambda>x. sep @ x) cs)"

text \<open>
  \<open>encode d lvl v\<close> is the text of \<open>v\<close> at nesting level \<open>lvl\<close>. The chunks of a
  container are produced from left to right; a key is checked before its value is
  encoded, and the first failure ends the whole call.
\<close>

fun encode :: "default_fn \<Rightarrow> nat \<Rightarrow> normalized \<Rightarrow> exn + string"
and encode_elems :: "default_fn \<Rightarrow> nat \<Rightarrow> normalized list \<Rightarrow> exn + string list"
and encode_items :: "default_fn \<Rightarrow> nat \<Rightarrow> (pykey \<times> normalized) list \<Rightarrow> exn + string list" where
  "encode d lvl (NScalar s) = encode_scalar d s"
| "encode d lvl (NList []) = Inr ''[]''"
| "encode d lvl (NList (x # xs)) =
     (case encode_elems d (Suc lvl) (x # xs) of
        Inl e \<Rightarrow> Inl e
      | Inr chunks \<Rightarrow>
          Inr (''['' @ newline_indent (Suc lvl)
               @ join_with (CHR '','' # newline_indent (Suc lvl)) chunks
               @ newline_indent lvl @ '']''))"
| "encode d lvl (NDict []) = Inr ''{}''"
| "encode d lvl (NDict (kv # kvs)) =
     (case encode_items d (Suc lvl) (kv # kvs) of
        Inl e \<Rightarrow> Inl e
      | Inr chunks \<Rightarrow>
          Inr (''{'' @ newline_indent (Suc lvl)
               @ join_with (CHR '','' # newline_indent (Suc lvl)) chunks
               @ newline_indent lvl @ ''}''))"
| "encode_elems d lvl [] = Inr []"
| "encode_elems d lvl (x # xs) =
     (case encode d lvl x of
        Inl e \<Rightarrow> Inl e
      | Inr c \<Rightarrow> (case encode_elems d lvl xs of Inl e \<Rightarrow> Inl e | Inr cs \<Rightarrow> Inr (c # cs)))"
| "encode_items d lvl [] = Inr []"
| "encode_items d lvl ((k, v) # kvs) =
     (case encode_key k of
        Inl e \<Rightarrow> Inl e
      | Inr ks \<Rightarrow>
          (case encode d lvl v of
             Inl e \<Rightarrow> Inl e
           | Inr c \<Rightarrow>
               (case encode_items d lvl kvs of
                  Inl e \<Rightarrow> Inl e
                | Inr cs \<Rightarrow> Inr ((encode_str ks @ '': '' @ c) # cs))))"

definition json_dumps :: "default_fn \<Rightarrow> normalized \<Rightarrow> exn + string" where
  "json_dumps d v = encode d 0 v"

section \<open>Rendering\<close>

text \<open>
  \<^verbatim>\<open>
  def format_response(data, title):
      try:
          json_data = convert_to_json_serializable(data)
          if json_data is None or (isinstance(json_data, list) and len(json_data) == 0):
              return f"{title}: No data available"
          return f"{title}:\n{json.dumps(json_data, indent=2, default=str)}"
      except Exception as e:
          return f"{title}: Error formatting data - {str(e)}"
  \<close>
  \<open>format_response_try\<close> is the body of the \<open>try\<close>.
\<close>

definition format_response_try :: "pyval \<Rightarrow> string \<Rightarrow> exn + string" where
  "format_response_try data title =
     (case convert_to_json_serializable data of
        Inl e \<Rightarrow> Inl e
      | Inr json_data \<Rightarrow>
          if json_data = NScalar SNone \<or> json_data = NList []
          then Inr (title @ '': No data available'')
          else (case json_dumps DefaultStr json_data of
                  Inl e \<Rightarrow> Inl e
                | Inr text \<Rightarrow> Inr (title @ '':'' @ [CHR 0x0A] @ text)))"

definition format_response :: "pyval \<Rightarrow> string \<Rightarrow> string" where
  "format_response data title =
     (case format_response_try data title of
        Inr text \<Rightarrow> text
      | Inl e \<Rightarrow> title @ '': Error formatting data - '' @ exn_str e)"

section \<open>The range resolver\<close>

subsection \<open>Dates\<close>

text \<open>
  A date is its proleptic Gregorian day number (\<open>date.toordinal()\<close>, day 1 is
  0001-01-01), so that \<open>d - timedelta(days=365)\<close> is \<open>d - 365\<close>. \<open>ord2ymd\<close> is
  the conversion of the datetime module to year, month and day, and \<open>strftime_ymd\<close>
  is \<open>strftime('%Y-%m-%d')\<close> for the years 1000 to 9999. The limits of the
  \<open>datetime\<close> range (years 1 to 9999) are not modelled.
\<close>

definition days_before_month :: "bool \<Rightarrow> int \<Rightarrow> int" where
  "days_before_month leap m =
     [0, 0, 31, 59, 90, 120, 151, 181, 212, 243, 273, 304, 334] ! nat m
     + (if m > 2 \<and> leap then 1 else 0)"

definition days_in_month :: "bool \<Rightarrow> int \<Rightarrow> int" where
  "days_in_month leap m =
     [0, 31, 28, 31, 30, 31, 30, 31, 31, 30, 31, 30, 31] ! nat m
     + (if m = 2 \<and> leap then 1 else 0)"

definition ord2ymd :: "int \<Rightarrow> int \<times> int \<times> int" where
  "ord2ymd ordinal =
     (let n = ordinal - 1;
          n400 = n div 146097; n = n mod 146097;
          n100 = n div 36524; n = n mod 36524;
          n4 = n div 1461; n = n mod 1461;
          n1 = n div 365; n = n mod 365;
          year = n400 * 400 + 1 + n100 * 100 + n4 * 4 + n1
      in if n1 = 4 \<or> n100 = 4 then (year - 1, 12, 31)
         else
           (let leapyear = (n1 = 3 \<and> (n4 \<noteq> 24 \<or> n100 = 3));
                month = (n + 50) div 32;
                preceding = days_before_month leapyear month
            in if preceding > n
               then (year, month - 1,
                     n - (preceding - days_in_month leapyear (month - 1)) + 1)
               else (year, month, n - preceding + 1)))"

definition zero_pad :: "nat \<Rightarrow> string \<Rightarrow> string" where
  "zero_pad w s = replicate (w - length s) (CHR ''0'') @ s"

definition strftime_ymd :: "int \<Rightarrow> string" where
  "strftime_ymd d =
     (case ord2ymd d of
        (y, m, dd) \<Rightarrow>
          zero_pad 4 (string_of_int y) @ ''-'' @ zero_pad 2 (string_of_int m)
          @ ''-'' @ zero_pad 2 (string_of_int dd))"

subsection \<open>Parameters of the history query\<close>

text \<open>
  The parameter preparation of \<open>get_historical_prices\<close>:
  \<^verbatim>\<open>
  params = {"interval": interval, "adj_timezone": True, "adj_ohlc": False}
  if period and not (start_date or end_date):
      params["period"] = period
  else:
      if not end_date:
          end_date = datetime.today().strftime('%Y-%m-%d')
      if not start_date:
          start_date = (datetime.today() - timedelta(days=365)).strftime('%Y-%m-%d')
      params["start"] = start_date
      params["end"] = end_date
  \<close>
  The clock is an input: \<open>today_end\<close> and \<open>today_start\<close> are the dates the first and
  the second \<open>datetime.today()\<close> of the text return when they are reached.
\<close>

fun opt_str :: "string option \<Rightarrow> scalar" where
  "opt_str None = SNone"
| "opt_str (Some s) = SStr s"

definition get_historical_prices_params ::
  "int \<Rightarrow> int \<Rightarrow> string option \<Rightarrow> string option \<Rightarrow> string option \<Rightarrow> string
   \<Rightarrow> (string \<rightharpoonup> scalar)" where
  "get_historical_prices_params today_end today_start period start_date end_date interval =
     (let params = [''interval'' \<mapsto> SStr interval,
                    ''adj_timezone'' \<mapsto> SBool True,
                    ''adj_ohlc'' \<mapsto> SBool False]
      in if truthy period \<and> \<not> (truthy start_date \<or> truthy end_date)
         then params(''period'' \<mapsto> opt_str period)
         else
           (let end_date' = (if \<not> truthy end_date
                             then Some (strftime_ymd today_end) else end_date);
                start_date' = (if \<not> truthy start_date
                               then Some (strftime_ymd (today_start - 365)) else start_date)
            in params(''start'' \<mapsto> opt_str start_date', ''end'' \<mapsto> opt_str end_date')))"

text \<open>The reading of the spec's "provided": an argument was passed, whatever its text.\<close>

definition provided :: "string option \<Rightarrow> bool" where
  "provided x = (x \<noteq> None)"

section \<open>Symbol search\<close>

text \<open>
  \<open>search_symbols\<close> works on what \<open>yahooquery.search\<close> returns, a decoded JSON
  document, with the operations of the interpreter: truth value, \<open>in\<close>, subscript,
  slice and the \<open>get\<close> method. On a value of the wrong type they raise; the texts
  of these errors are those of CPython 3.10.
\<close>

fun class_name :: "normalized \<Rightarrow> string" where
  "class_name (NScalar SNone) = ''NoneType''"
| "class_name (NScalar (SBool b)) = ''bool''"
| "class_name (NScalar (SInt i)) = ''int''"
| "class_name (NScalar (SFloat f)) = ''float''"
| "class_name (NScalar (SStr s)) = ''str''"
| "class_name (NScalar (SObj cls na s)) = cls"
| "class_name (NList xs) = ''list''"
| "class_name (NDict kvs) = ''dict''"

fun py_bool :: "normalized \<Rightarrow> bool" where
  "py_bool (NScalar SNone) = False"
| "py_bool (NScalar (SBool b)) = b"
| "py_bool (NScalar (SInt i)) = (i \<noteq> 0)"
| "py_bool (NScalar (SFloat (FFinite r))) = (r \<noteq> ''0.0'' \<and> r \<noteq> ''-0.0'')"
| "py_bool (NScalar (SFloat f)) = True"
| "py_bool (NScalar (SStr s)) = (s \<noteq> [])"
| "py_bool (NScalar (SObj cls na s)) = True"
| "py_bool (NList xs) = (xs \<noteq> [])"
| "py_bool (NDict kvs) = (kvs \<noteq> [])"

fun is_prefix :: "string \<Rightarrow> string \<Rightarrow> bool" where
  "is_prefix [] ys = True"
| "is_prefix (x # xs) [] = False"
| "is_prefix (x # xs) (y # ys) = (x = y \<and> is_prefix xs ys)"

fun is_substring :: "string \<Rightarrow> string \<Rightarrow> bool" where
  "is_substring xs [] = (xs = [])"
| "is_substring xs (y # ys) = (is_prefix xs (y # ys) \<or> is_substring xs ys)"

definition quoted :: "string \<Rightarrow> string" where
  "quoted s = [CHR 0x27] @ s @ [CHR 0x27]"

text \<open>\<open>k in x\<close> for a string \<open>k\<close>.\<close>

fun py_contains :: "normalized \<Rightarrow> string \<Rightarrow> exn + bool" where
  "py_contains (NDict kvs) k = Inr (dict_get kvs (KStr k) \<noteq> None)"
| "py_contains (NList xs) k = Inr (NScalar (SStr k) \<in> set xs)"
| "py_contains (NScalar (SStr s)) k = Inr (is_substring k s)"
| "py_contains v k =
     Inl (Exn ''TypeError'' (''argument of type '' @ quoted (class_name v) @ '' is not iterable''))"

text \<open>\<open>x[k]\<close> for a string \<open>k\<close>.\<close>

fun py_getitem :: "normalized \<Rightarrow> string \<Rightarrow> exn + normalized" where
  "py_getitem (NDict kvs) k =
     (case dict_get kvs (KStr k) of
        Some v \<Rightarrow> Inr v
      | None \<Rightarrow> Inl (Exn ''KeyError'' (quoted k)))"
| "py_getitem (NList xs) k =
     Inl (Exn ''TypeError'' ''list indices must be integers or slices, not str'')"
| "py_getitem (NScalar (SStr s)) k = Inl (Exn ''TypeError'' ''string indices must be integers'')"
| "py_getitem v k =
     Inl (Exn ''TypeError'' (quoted (class_name v) @ '' object is not subscriptable''))"

text \<open>The elements a \<open>for\<close> loop sees in \<open>x[:n]\<close>.\<close>

fun py_slice_to :: "normalized \<Rightarrow> nat \<Rightarrow> exn + normalized list" where
  "py_slice_to (NList xs) n = Inr (take n xs)"
| "py_slice_to (NScalar (SStr s)) n = Inr (map (\<lambda>c. NScalar (SStr [c])) (take n s))"
| "py_slice_to (NDict kvs) n =
     Inl (Exn ''TypeError'' (''unhashable type: '' @ quoted ''slice''))"
| "py_slice_to v n =
     Inl (Exn ''TypeError'' (quoted (class_name v) @ '' object is not subscriptable''))"

text \<open>\<open>x.get(k, default)\<close>: a method of dicts only.\<close>

fun py_get :: "normalized \<Rightarrow> string \<Rightarrow> normalized \<Rightarrow> exn + normalized" where
  "py_get (NDict kvs) k dflt = Inr (case dict_get kvs (KStr k) of Some v \<Rightarrow> v | None \<Rightarrow> dflt)"
| "py_get v k dflt =
     Inl (Exn ''AttributeError''
            (quoted (class_name v) @ '' object has no attribute '' @ quoted ''get''))"

text \<open>
  The dict built for one quote:
  \<^verbatim>\<open>
  result = {"symbol": quote.get('symbol', ''),
            "name": quote.get('longname', quote.get('shortname', '')),
            "type": quote.get('quoteType', ''),
            "exchange": quote.get('exchange', '')}
  \<close>
\<close>

definition empty_str :: normalized where
  "empty_str = NScalar (SStr [])"

definition format_quote :: "normalized \<Rightarrow> exn + normalized" where
  "format_quote quote =
     (case py_get quote ''symbol'' empty_str of
        Inl e \<Rightarrow> Inl e
      | Inr symb \<Rightarrow>
     (case py_get quote ''shortname'' empty_str of
        Inl e \<Rightarrow> Inl e
      | Inr short \<Rightarrow>
     (case py_get quote ''longname'' short of
        Inl e \<Rightarrow> Inl e
      | Inr name \<Rightarrow>
     (case py_get quote ''quoteType'' empty_str of
        Inl e \<Rightarrow> Inl e
      | Inr ty \<Rightarrow>
     (case py_get quote ''exchange'' empty_str of
        Inl e \<Rightarrow> Inl e
      | Inr ex \<Rightarrow>
          Inr (NDict (dict_of [(KStr ''symbol'', symb), (KStr ''name'', name),
                               (KStr ''type'', ty), (KStr ''exchange'', ex)])))))))"

text \<open>The loop \<open>for quote in quotes[:10]: ... formatted_results.append(result)\<close>.\<close>

fun format_quotes :: "normalized list \<Rightarrow> exn + normalized list" where
  "format_quotes [] = Inr []"
| "format_quotes (q # qs) =
     (case format_quote q of
        Inl e \<Rightarrow> Inl e
      | Inr r \<Rightarrow> (case format_quotes qs of Inl e \<Rightarrow> Inl e | Inr rs \<Rightarrow> Inr (r # rs)))"

text \<open>
  The list \<open>formatted_results\<close> of a call, when the call builds one: \<open>Inr None\<close> is
  the branch "No results found", \<open>Inl e\<close> an exception raised on the way.
\<close>

definition formatted_results :: "normalized \<Rightarrow> exn + normalized list option" where
  "formatted_results results =
     (if \<not> py_bool results then Inr None
      else (case py_contains results ''quotes'' of
              Inl e \<Rightarrow> Inl e
            | Inr False \<Rightarrow> Inr None
            | Inr True \<Rightarrow>
                (case py_getitem results ''quotes'' of
                   Inl e \<Rightarrow> Inl e
                 | Inr quotes \<Rightarrow>
                     (case py_slice_to quotes 10 of
                        Inl e \<Rightarrow> Inl e
                      | Inr qs \<Rightarrow>
                          (case format_quotes qs of
                             Inl e \<Rightarrow> Inl e
                           | Inr rs \<Rightarrow> Inr (Some rs))))))"

text \<open>
  \<^verbatim>\<open>
  async def search_symbols(query):
      try:
          from yahooquery import search
          results = search(query)
          if results and 'quotes' in results:
              ...
              return f"Search Results for '{query}':\n{json.dumps(formatted_results, indent=2)}"
          else:
              return f"No results found for '{query}'"
      except Exception as e:
          return f"Error searching symbols: {str(e)}"
  \<close>
  \<open>upstream\<close> is the outcome of \<open>search(query)\<close>: a value, or an exception.
\<close>

definition search_symbols_try :: "(exn + normalized) \<Rightarrow> string \<Rightarrow> exn + string" where
  "search_symbols_try upstream query =
     (case upstream of
        Inl e \<Rightarrow> Inl e
      | Inr results \<Rightarrow>
          (case formatted_results results of
             Inl e \<Rightarrow> Inl e
           | Inr None \<Rightarrow> Inr (''No results found for '' @ quoted query)
           | Inr (Some rs) \<Rightarrow>
               (case json_dumps NoDefault (NList rs) of
                  Inl e \<Rightarrow> Inl e
                | Inr text \<Rightarrow>
                    Inr (''Search Results for '' @ quoted query @ '':'' @ [CHR 0x0A] @ text))))"

definition search_symbols :: "(exn + normalized) \<Rightarrow> string \<Rightarrow> string" where
  "search_symbols upstream query =
     (case search_symbols_try upstream query of
        Inr text \<Rightarrow> text
      | Inl e \<Rightarrow> ''Error searching symbols: '' @ exn_str e)"


section \<open>Predicates used in the statements\<close>

text \<open>
  A table is well formed when its index has one entry per row, every tuple of a
  \<open>MultiIndex\<close> has one label per level, and every row has one cell per column. Every
  pandas \<open>DataFrame\<close> is.
\<close>

fun index_fits :: "pd_index \<Rightarrow> nat \<Rightarrow> bool" where
  "index_fits (RangeIndex name start step) n = True"
| "index_fits (Index name labels) n = (length labels = n)"
| "index_fits (MultiIndex names tuples) n =
     (length tuples = n \<and> list_all (\<lambda>t. length t = length names) tuples)"

definition wf_frame :: "dataframe \<Rightarrow> bool" where
  "wf_frame df =
     (index_fits (df_index df) (length (df_rows df))
      \<and> list_all (\<lambda>r. length r = length (df_columns df)) (df_rows df))"

text \<open>The keys of a dict, in order.\<close>

fun dict_keys :: "normalized \<Rightarrow> pykey list" where
  "dict_keys (NDict kvs) = map fst kvs"
| "dict_keys _ = []"

text \<open>\<open>d[k]\<close> of a normalized dict, when there is one.\<close>

fun item :: "normalized \<Rightarrow> string \<Rightarrow> normalized option" where
  "item (NDict kvs) k = dict_get kvs (KStr k)"
| "item _ k = None"

text \<open>
  JSON-safe values, the spec's already-normalized values: \<open>null\<close>, booleans, integers,
  finite floats, strings, lists of such values and dicts from strings to such values.
\<close>

fun json_safe_scalar :: "scalar \<Rightarrow> bool" where
  "json_safe_scalar SNone = True"
| "json_safe_scalar (SBool b) = True"
| "json_safe_scalar (SInt i) = True"
| "json_safe_scalar (SFloat (FFinite r)) = True"
| "json_safe_scalar (SFloat f) = False"
| "json_safe_scalar (SStr s) = True"
| "json_safe_scalar (SObj cls na s) = False"

fun is_KStr :: "pykey \<Rightarrow> bool" where
  "is_KStr (KStr s) = True"
| "is_KStr _ = False"

fun json_safe :: "normalized \<Rightarrow> bool"
and json_safe_list :: "normalized list \<Rightarrow> bool"
and json_safe_items :: "(pykey \<times> normalized) list \<Rightarrow> bool" where
  "json_safe (NScalar s) = json_safe_scalar s"
| "json_safe (NList xs) = json_safe_list xs"
| "json_safe (NDict kvs) = json_safe_items kvs"
| "json_safe_list [] = True"
| "json_safe_list (x # xs) = (json_safe x \<and> json_safe_list xs)"
| "json_safe_items [] = True"
| "json_safe_items ((k, v) # kvs) = (is_KStr k \<and> json_safe v \<and> json_safe_items kvs)"

text \<open>
  A scalar the normalizer returns as it is: \<open>None\<close>, or one that \<open>pd.isna\<close> rejects.
  \<open>cells_fixed x\<close> says that every cell and index label of every table and series
  inside \<open>x\<close> is such a scalar.
\<close>

definition fixed_scalar :: "scalar \<Rightarrow> bool" where
  "fixed_scalar s = (s = SNone \<or> \<not> pd_isna s)"

fun index_labels :: "pd_index \<Rightarrow> scalar list" where
  "index_labels (RangeIndex name start step) = []"
| "index_labels (Index name labels) = labels"
| "index_labels (MultiIndex names tuples) = concat tuples"

fun cells_fixed :: "pyval \<Rightarrow> bool"
and cells_fixed_list :: "pyval list \<Rightarrow> bool"
and cells_fixed_items :: "(pykey \<times> pyval) list \<Rightarrow> bool" where
  "cells_fixed (PScalar s) = True"
| "cells_fixed (PList xs) = cells_fixed_list xs"
| "cells_fixed (PTuple xs) = cells_fixed_list xs"
| "cells_fixed (PDict kvs) = cells_fixed_items kvs"
| "cells_fixed (PDataFrame df) =
     (list_all fixed_scalar (index_labels (df_index df))
      \<and> list_all (list_all fixed_scalar) (df_rows df))"
| "cells_fixed (PSeries items) = list_all (\<lambda>kv. fixed_scalar (snd kv)) items"
| "cells_fixed_list [] = True"
| "cells_fixed_list (x # xs) = (cells_fixed x \<and> cells_fixed_list xs)"
| "cells_fixed_items [] = True"
| "cells_fixed_items ((k, v) # kvs) = (cells_fixed v \<and> cells_fixed_items kvs)"

text \<open>\<open>convert(convert(x))\<close>: the second call runs when the first returns.\<close>

definition convert_twice :: "pyval \<Rightarrow> exn + normalized" where
  "convert_twice x =
     (case convert_to_json_serializable x of
        Inl e \<Rightarrow> Inl e
      | Inr y \<Rightarrow> convert_to_json_serializable (raw y))"

text \<open>The field of a quote that \<open>quote.get(k, '')\<close> reads.\<close>

definition field :: "normalized \<Rightarrow> string \<Rightarrow> normalized" where
  "field quote k = (case item quote k of Some v \<Rightarrow> v | None \<Rightarrow> empty_str)"

fun is_NDict :: "normalized \<Rightarrow> bool" where
  "is_NDict (NDict kvs) = True"
| "is_NDict _ = False"

text \<open>\<open>all_scalars P v\<close>: every scalar inside \<open>v\<close> satisfies \<open>P\<close>.\<close>

fun all_scalars :: "(scalar \<Rightarrow> bool) \<Rightarrow> normalized \<Rightarrow> bool"
and all_scalars_list :: "(scalar \<Rightarrow> bool) \<Rightarrow> normalized list \<Rightarrow> bool"
and all_scalars_items :: "(scalar \<Rightarrow> bool) \<Rightarrow> (pykey \<times> normalized) list \<Rightarrow> bool" where
  "all_scalars P (NScalar s) = P s"
| "all_scalars P (NList xs) = all_scalars_list P xs"
| "all_scalars P (NDict kvs) = all_scalars_items P kvs"
| "all_scalars_list P [] = True"
| "all_scalars_list P (x # xs) = (all_scalars P x \<and> all_scalars_list P xs)"
| "all_scalars_items P [] = True"
| "all_scalars_items P ((k, v) # kvs) = (all_scalars P v \<and> all_scalars_items P kvs)"

text \<open>
  The entry the claim describes for a quote: exactly the four fields \<open>symbol\<close>,
  \<open>name\<close>, \<open>type\<close> and \<open>exchange\<close>, a missing field being the empty string; the
  name is the long name when the quote has one and the short name otherwise.
\<close>

definition four_fields :: "normalized \<Rightarrow> normalized" where
  "four_fields quote =
     NDict [(KStr ''symbol'', field quote ''symbol''),
            (KStr ''name'', (case item quote ''longname'' of
                               Some v \<Rightarrow> v
                             | None \<Rightarrow> field quote ''shortname'')),
            (KStr ''type'', field quote ''quoteType''),
            (KStr ''exchange'', field quote ''exchange'')]"

section \<open>Reading JSON text\<close>

text \<open>
  The round trip of the rendered text is stated against a reader of JSON text. It
  follows the decoder of the json module (\<open>json.loads\<close>): whitespace is blank, tab,
  newline and carriage return; \<open>null\<close>, \<open>true\<close>, \<open>false\<close>, \<open>NaN\<close>, \<open>Infinity\<close> and
  \<open>-Infinity\<close> are literals; a number without fraction and exponent is an integer
  and any other number a float; a string ends at the first unescaped quote and may
  not hold a control character; an object becomes the dict of its members, a later
  member replacing an earlier one with the same key. Code points above U+00FF are
  outside the model of text, so the reader rejects their escapes. A float literal is
  kept as its text, which for the text \<open>json.dumps\<close> writes is the \<open>repr\<close> of the
  float.
\<close>

definition is_ws :: "char \<Rightarrow> bool" where
  "is_ws c = (c = CHR '' '' \<or> c = CHR 0x09 \<or> c = CHR 0x0A \<or> c = CHR 0x0D)"

definition skip_ws :: "string \<Rightarrow> string" where
  "skip_ws s = dropWhile is_ws s"

definition is_digit :: "char \<Rightarrow> bool" where
  "is_digit c = (let n = (of_char c :: nat) in 48 \<le> n \<and> n \<le> 57)"

definition is_number_char :: "char \<Rightarrow> bool" where
  "is_number_char c =
     (is_digit c \<or> c = CHR ''-'' \<or> c = CHR ''+'' \<or> c = CHR ''.'' \<or> c = CHR ''e''
      \<or> c = CHR ''E'')"

definition nat_of_digits :: "string \<Rightarrow> nat" where
  "nat_of_digits s = foldl (\<lambda>acc c. 10 * acc + ((of_char c :: nat) - 48)) 0 s"

text \<open>The integer part of a number: digits, with no leading zero unless it is \<open>0\<close>.\<close>

definition is_nat_literal :: "string \<Rightarrow> bool" where
  "is_nat_literal t = (t \<noteq> [] \<and> list_all is_digit t \<and> (t = ''0'' \<or> hd t \<noteq> CHR ''0''))"

definition strip_minus :: "string \<Rightarrow> string" where
  "strip_minus t = (case t of [] \<Rightarrow> [] | c # r \<Rightarrow> if c = CHR ''-'' then r else t)"

definition is_int_literal :: "string \<Rightarrow> bool" where
  "is_int_literal t = is_nat_literal (strip_minus t)"

definition int_of_literal :: "string \<Rightarrow> int" where
  "int_of_literal t =
     (case t of
        [] \<Rightarrow> 0
      | c # r \<Rightarrow> if c = CHR ''-'' then - int (nat_of_digits r) else int (nat_of_digits t))"

text \<open>An exponent \<open>[eE][-+]?[0-9]+\<close>, and a fraction \<open>.[0-9]+\<close> with an optional exponent.\<close>

definition is_exponent :: "string \<Rightarrow> bool" where
  "is_exponent r =
     (case r of
        [] \<Rightarrow> False
      | c # r' \<Rightarrow>
          (c = CHR ''e'' \<or> c = CHR ''E'')
          \<and> (let ds = (case r' of
                         [] \<Rightarrow> []
                       | s # x \<Rightarrow> if s = CHR ''+'' \<or> s = CHR ''-'' then x else r')
             in ds \<noteq> [] \<and> list_all is_digit ds))"

definition is_fraction_exponent :: "string \<Rightarrow> bool" where
  "is_fraction_exponent r =
     (case r of
        [] \<Rightarrow> False
      | c # r' \<Rightarrow>
          if c = CHR ''.''
          then takeWhile is_digit r' \<noteq> []
               \<and> (dropWhile is_digit r' = [] \<or> is_exponent (dropWhile is_digit r'))
          else is_exponent r)"

definition is_float_literal :: "string \<Rightarrow> bool" where
  "is_float_literal t =
     (is_nat_literal (takeWhile is_digit (strip_minus t))
      \<and> is_fraction_exponent (dropWhile is_digit (strip_minus t)))"

text \<open>The literals and numbers.\<close>

definition parse_literal :: "string \<Rightarrow> (normalized \<times> string) option" where
  "parse_literal s =
     (if is_prefix ''null'' s then Some (NScalar SNone, drop 4 s)
      else if is_prefix ''true'' s then Some (NScalar (SBool True), drop 4 s)
      else if is_prefix ''false'' s then Some (NScalar (SBool False), drop 5 s)
      else if is_prefix ''NaN'' s then Some (NScalar (SFloat FNan), drop 3 s)
      else if is_prefix ''Infinity'' s then Some (NScalar (SFloat FInf), drop 8 s)
      else if is_prefix ''-Infinity'' s then Some (NScalar (SFloat FNegInf), drop 9 s)
      else
        (let tok = takeWhile is_number_char s; r = dropWhile is_number_char s
         in if is_int_literal tok then Some (NScalar (SInt (int_of_literal tok)), r)
            else if is_float_literal tok then Some (NScalar (SFloat (FFinite tok)), r)
            else None))"

text \<open>Strings: the text after the opening quote, up to the closing quote.\<close>

definition hex_value :: "char \<Rightarrow> nat option" where
  "hex_value c =
     (let n = (of_char c :: nat) in
      if 48 \<le> n \<and> n \<le> 57 then Some (n - 48)
      else if 97 \<le> n \<and> n \<le> 102 then Some (n - 87)
      else if 65 \<le> n \<and> n \<le> 70 then Some (n - 55)
      else None)"

definition hex4 :: "char \<Rightarrow> char \<Rightarrow> char \<Rightarrow> char \<Rightarrow> nat option" where
  "hex4 a b c d =
     (case (hex_value a, hex_value b, hex_value c, hex_value d) of
        (Some w, Some x, Some y, Some z) \<Rightarrow> Some (((w * 16 + x) * 16 + y) * 16 + z)
      | _ \<Rightarrow> None)"

definition unescape :: "char \<Rightarrow> char option" where
  "unescape e =
     (if e = CHR 0x22 then Some (CHR 0x22)
      else if e = CHR 0x5C then Some (CHR 0x5C)
      else if e = CHR ''/'' then Some (CHR ''/'')
      else if e = CHR ''b'' then Some (CHR 0x08)
      else if e = CHR ''f'' then Some (CHR 0x0C)
      else if e = CHR ''n'' then Some (CHR 0x0A)
      else if e = CHR ''r'' then Some (CHR 0x0D)
      else if e = CHR ''t'' then Some (CHR 0x09)
      else None)"

definition cons_result :: "char \<Rightarrow> (string \<times> string) option \<Rightarrow> (string \<times> string) option" where
  "cons_result c r = (case r of None \<Rightarrow> None | Some (s, rest) \<Rightarrow> Some (c # s, rest))"

fun parse_string :: "string \<Rightarrow> (string \<times> string) option" where
  "parse_string [] = None"
| "parse_string [c] = (if c = CHR 0x22 then Some ([], []) else None)"
| "parse_string (c # e # r) =
     (if c = CHR 0x22 then Some ([], e # r)
      else if c = CHR 0x5C then
        (if e = CHR ''u'' then
           (case r of
              a # b # x # y # r' \<Rightarrow>
                (case hex4 a b x y of
                   None \<Rightarrow> None
                 | Some n \<Rightarrow> if n < 256 then cons_result (char_of n) (parse_string r') else None)
            | _ \<Rightarrow> None)
         else (case unescape e of
                 None \<Rightarrow> None
               | Some ch \<Rightarrow> cons_result ch (parse_string r)))
      else if (of_char c :: nat) < 32 then None
      else cons_result c (parse_string (e # r)))"

text \<open>
  Values, the elements of an array after its \<open>[\<close> and the members of an object after
  its \<open>{\<close>. The first argument bounds the depth of the calls; \<open>json_loads\<close> starts
  with the length of the text, which is more than a text of that length can use.
\<close>

fun parse_value :: "nat \<Rightarrow> string \<Rightarrow> (normalized \<times> string) option"
and parse_elems :: "nat \<Rightarrow> string \<Rightarrow> (normalized list \<times> string) option"
and parse_members :: "nat \<Rightarrow> string \<Rightarrow> ((pykey \<times> normalized) list \<times> string) option" where
  "parse_value 0 s = None"
| "parse_value (Suc n) s =
     (case skip_ws s of
        [] \<Rightarrow> None
      | c # r \<Rightarrow>
          if c = CHR ''{'' then
            (case skip_ws r of
               [] \<Rightarrow> None
             | c' # r' \<Rightarrow>
                 if c' = CHR ''}'' then Some (NDict [], r')
                 else (case parse_members n r of
                         None \<Rightarrow> None
                       | Some (kvs, rest) \<Rightarrow> Some (NDict (dict_of kvs), rest)))
          else if c = CHR ''['' then
            (case skip_ws r of
               [] \<Rightarrow> None
             | c' # r' \<Rightarrow>
                 if c' = CHR '']'' then Some (NList [], r')
                 else (case parse_elems n r of
                         None \<Rightarrow> None
                       | Some (xs, rest) \<Rightarrow> Some (NList xs, rest)))
          else if c = CHR 0x22 then
            (case parse_string r of
               None \<Rightarrow> None
             | Some (str, rest) \<Rightarrow> Some (NScalar (SStr str), rest))
          else parse_literal (c # r))"
| "parse_elems 0 s = None"
| "parse_elems (Suc n) s =
     (case parse_value n s of
        None \<Rightarrow> None
      | Some (v, r) \<Rightarrow>
          (case skip_ws r of
             [] \<Rightarrow> None
           | c # r' \<Rightarrow>
               if c = CHR '','' then
                 (case parse_elems n r' of
                    None \<Rightarrow> None
                  | Some (vs, rest) \<Rightarrow> Some (v # vs, rest))
               else if c = CHR '']'' then Some ([v], r')
               else None))"
| "parse_members 0 s = None"
| "parse_members (Suc n) s =
     (case skip_ws s of
        [] \<Rightarrow> None
      | q # r \<Rightarrow>
          if q \<noteq> CHR 0x22 then None
          else
            (case parse_string r of
               None \<Rightarrow> None
             | Some (k, r1) \<Rightarrow>
                 (case skip_ws r1 of
                    [] \<Rightarrow> None
                  | c # r2 \<Rightarrow>
                      if c \<noteq> CHR '':'' then None
                      else
                        (case parse_value n r2 of
                           None \<Rightarrow> None
                         | Some (v, r3) \<Rightarrow>
                             (case skip_ws r3 of
                                [] \<Rightarrow> None
                              | c' # r4 \<Rightarrow>
                                  if c' = CHR '','' then
                                    (case parse_members n r4 of
                                       None \<Rightarrow> None
                                     | Some (kvs, rest) \<Rightarrow> Some ((KStr k, v) # kvs, rest))
                                  else if c' = CHR ''}'' then Some ([(KStr k, v)], r4)
                                  else None)))))"

text \<open>\<open>json.loads\<close>: one value, and nothing but whitespace after it.\<close>

definition json_loads :: "string \<Rightarrow> normalized option" where
  "json_loads s =
     (case parse_value (length s) s of
        None \<Rightarrow> None
      | Some (v, rest) \<Rightarrow> if skip_ws rest = [] then Some v else None)"

text \<open>
  The values JSON can represent, well formed: no not-a-number, infinity or object of
  another class, every finite float with a \<open>repr\<close> that is a float literal, every
  dict with string keys, no two of them equal.
\<close>

fun json_representable_scalar :: "scalar \<Rightarrow> bool" where
  "json_representable_scalar SNone = True"
| "json_representable_scalar (SBool b) = True"
| "json_representable_scalar (SInt i) = True"
| "json_representable_scalar (SFloat (FFinite r)) = is_float_literal r"
| "json_representable_scalar (SFloat f) = False"
| "json_representable_scalar (SStr s) = True"
| "json_representable_scalar (SObj cls na s) = False"

fun json_representable :: "normalized \<Rightarrow> bool"
and json_representable_list :: "normalized list \<Rightarrow> bool"
and json_representable_items :: "(pykey \<times> normalized) list \<Rightarrow> bool" where
  "json_representable (NScalar s) = json_representable_scalar s"
| "json_representable (NList xs) = json_representable_list xs"
| "json_representable (NDict kvs) = (distinct (map fst kvs) \<and> json_representable_items kvs)"
| "json_representable_list [] = True"
| "json_representable_list (x # xs) = (json_representable x \<and> json_representable_list xs)"
| "json_representable_items [] = True"
| "json_representable_items ((k, v) # kvs) =
     (is_KStr k \<and> json_representable v \<and> json_representable_items kvs)"

section \<open>Properties of the symbol list\<close>

lemma py_split_nonempty: "py_split sep s \<noteq> []"
  by (induction s) (auto split: list.splits)

lemma py_join_Cons: "ts \<noteq> [] \<Longrightarrow> py_join sep (t # ts) = t @ sep # py_join sep ts"
  by (cases ts) auto

lemma py_join_Cons_hd: "py_join sep ((c # t) # ts) = c # py_join sep (t # ts)"
  by (cases ts) auto

lemma py_join_split: "py_join sep (py_split sep s) = s"
  by (induction s)
     (auto split: list.splits simp: py_split_nonempty py_join_Cons py_join_Cons_hd)

lemma length_py_split: "length (py_split sep s) = Suc (count_list s sep)"
  by (induction s) (auto split: list.splits simp: py_split_nonempty)

lemma py_split_no_sep: "t \<in> set (py_split sep s) \<Longrightarrow> sep \<notin> set t"
  by (induction s arbitrary: t) (auto split: list.splits if_splits simp: py_split_nonempty)

lemma of_char_range: "(of_char c :: nat) < 256"
proof -
  have "(of_char c :: nat) mod 256 = of_char c" by (rule of_char_mod_256)
  moreover have "(of_char c :: nat) mod 256 < 256" by simp
  ultimately show ?thesis by simp
qed

lemma py_upper_char_nonempty: "py_upper_char c \<noteq> []"
  by (simp add: py_upper_char_def Let_def)

lemma py_upper_char_unchanged: "n \<in> set (py_upper_char c) \<Longrightarrow> \<not> upper_changes n"
  using of_char_range [of c]
  by (auto simp: py_upper_char_def upper_changes_def Let_def split: if_splits)

lemma py_upper_char_not_space:
  assumes "\<not> py_isspace c" and "n \<in> set (py_upper_char c)"
  shows "\<not> cp_isspace n"
proof -
  define k where "k = (of_char c :: nat)"
  have kb: "k < 256" unfolding k_def by (rule of_char_range)
  have ns: "\<not> cp_isspace k" using assms(1) by (simp add: py_isspace_def k_def)
  have "n \<in> set (if 97 \<le> k \<and> k \<le> 122 then [k - 32]
                   else if k = 181 then [924]
                   else if k = 223 then [83, 83]
                   else if k = 255 then [376]
                   else if 224 \<le> k \<and> k \<le> 254 \<and> k \<noteq> 247 then [k - 32]
                   else [k])"
    using assms(2) unfolding py_upper_char_def Let_def k_def .
  then show ?thesis
    using kb ns by (auto simp: cp_isspace_def split: if_splits)
qed

lemma py_upper_unchanged: "n \<in> set (py_upper s) \<Longrightarrow> \<not> upper_changes n"
  by (auto simp: py_upper_def py_upper_char_unchanged)

lemma py_upper_Nil_iff: "py_upper s = [] \<longleftrightarrow> s = []"
  by (cases s) (simp_all add: py_upper_def py_upper_char_nonempty)

lemma hd_py_upper: "s \<noteq> [] \<Longrightarrow> hd (py_upper s) = hd (py_upper_char (hd s))"
  by (cases s) (simp_all add: py_upper_def py_upper_char_nonempty)

lemma last_py_upper: "s \<noteq> [] \<Longrightarrow> last (py_upper s) = last (py_upper_char (last s))"
proof (induction s rule: rev_induct)
  case Nil
  then show ?case by simp
next
  case (snoc c s)
  show ?case by (simp add: py_upper_def py_upper_char_nonempty)
qed

lemma last_dropWhile: "dropWhile P xs \<noteq> [] \<Longrightarrow> last (dropWhile P xs) = last xs"
  by (induction xs) (auto split: if_splits)

lemma dropWhile_rev_nonempty: "dropWhile P (rev ys) \<noteq> [] \<Longrightarrow> ys \<noteq> []"
  by auto

lemma py_strip_ends:
  assumes "py_strip s \<noteq> []"
  shows "\<not> py_isspace (hd (py_strip s))" and "\<not> py_isspace (last (py_strip s))"
proof -
  let ?ys = "dropWhile py_isspace s"
  let ?zs = "dropWhile py_isspace (rev ?ys)"
  from assms have zs: "?zs \<noteq> []" by (simp add: py_strip_def)
  have ys: "?ys \<noteq> []"
    using zs by (rule dropWhile_rev_nonempty)
  have "last (py_strip s) = hd ?zs" using zs by (simp add: py_strip_def last_rev)
  then show "\<not> py_isspace (last (py_strip s))" using zs hd_dropWhile by metis
  have "hd (py_strip s) = last ?zs" using zs by (simp add: py_strip_def hd_rev)
  also have "\<dots> = last (rev ?ys)" using zs by (rule last_dropWhile)
  also have "\<dots> = hd ?ys" using ys by (simp add: last_rev)
  finally show "\<not> py_isspace (hd (py_strip s))" using ys hd_dropWhile by metis
qed

text \<open>What \<open>strip\<close> removes is whitespace, in front and behind.\<close>

lemma py_strip_decompose:
  "\<exists>pre post. s = pre @ py_strip s @ post \<and> list_all py_isspace pre \<and> list_all py_isspace post"
proof -
  let ?pre = "takeWhile py_isspace s"
  let ?ys = "dropWhile py_isspace s"
  let ?post = "rev (takeWhile py_isspace (rev ?ys))"
  have "rev (dropWhile py_isspace (rev ?ys)) @ ?post
        = rev (takeWhile py_isspace (rev ?ys) @ dropWhile py_isspace (rev ?ys))"
    by (simp only: rev_append)
  also have "\<dots> = rev (rev ?ys)" by (simp only: takeWhile_dropWhile_id)
  also have "\<dots> = ?ys" by (simp only: rev_rev_ident)
  finally have ys: "?ys = py_strip s @ ?post"
    unfolding py_strip_def by (rule sym)
  have "s = ?pre @ ?ys" by simp
  with ys have s: "s = ?pre @ py_strip s @ ?post" by simp
  have a: "list_all py_isspace ?pre"
    by (auto simp: list_all_iff dest: set_takeWhileD)
  have b: "list_all py_isspace ?post"
    by (auto simp: list_all_iff dest: set_takeWhileD)
  from s a b show ?thesis by blast
qed

lemma ticker_token_shape:
  assumes "t \<in> set (ticker_list symbols)"
  shows "(t \<noteq> [] \<longrightarrow> \<not> cp_isspace (hd t) \<and> \<not> cp_isspace (last t))
         \<and> (\<forall>n \<in> set t. \<not> upper_changes n)"
proof -
  from assms obtain s where t: "t = py_upper (py_strip s)"
    by (auto simp: ticker_list_def)
  have u: "\<forall>n \<in> set t. \<not> upper_changes n"
    using py_upper_unchanged by (auto simp: t)
  have e: "\<not> cp_isspace (hd t) \<and> \<not> cp_isspace (last t)" if "t \<noteq> []"
  proof -
    from that have ne: "py_strip s \<noteq> []" by (simp add: t py_upper_Nil_iff)
    have h: "hd t \<in> set (py_upper_char (hd (py_strip s)))"
      using ne by (simp add: t hd_py_upper py_upper_char_nonempty)
    have l: "last t \<in> set (py_upper_char (last (py_strip s)))"
      using ne by (simp add: t last_py_upper py_upper_char_nonempty)
    from py_upper_char_not_space [OF py_strip_ends(1) [OF ne] h]
      py_upper_char_not_space [OF py_strip_ends(2) [OF ne] l]
    show ?thesis by simp
  qed
  from u e show ?thesis by blast
qed

lemma ticker_list_nth:
  assumes "i < length (py_split (CHR '','') symbols)"
  shows "ticker_list symbols ! i = py_upper (py_strip (py_split (CHR '','') symbols ! i))"
  using assms by (simp add: ticker_list_def)

lemma ticker_list_example:
  "ticker_list ''aapl, googl'' = [code_points ''AAPL'', code_points ''GOOGL'']"
  by code_simp

text \<open>
  C10. The list sent upstream is the input split on commas, each piece stripped of
  surrounding whitespace and upper-cased. Splitting is the decomposition at the commas:
  joining the pieces with commas gives the input back, no piece holds a comma, and
  there is one piece more than there are commas. Token \<open>i\<close> of the result is the
  upper-cased stripped piece \<open>i\<close>, and what the stripping removes from the piece is
  whitespace before and after. Every token has no whitespace at either end and holds
  no code point that upper-casing would still change, and \<open>"aapl, googl"\<close> gives
  \<open>["AAPL", "GOOGL"]\<close>.
\<close>

theorem ticker_list_split_strip_upper:
  "py_join (CHR '','') (py_split (CHR '','') symbols) = symbols
   \<and> (\<forall>t \<in> set (py_split (CHR '','') symbols). CHR '','' \<notin> set t)
   \<and> length (ticker_list symbols) = Suc (count_list symbols (CHR '',''))
   \<and> (\<forall>i < length (py_split (CHR '','') symbols).
         ticker_list symbols ! i = py_upper (py_strip (py_split (CHR '','') symbols ! i))
         \<and> (\<exists>pre post. py_split (CHR '','') symbols ! i
                = pre @ py_strip (py_split (CHR '','') symbols ! i) @ post
              \<and> list_all py_isspace pre \<and> list_all py_isspace post))
   \<and> (\<forall>t \<in> set (ticker_list symbols).
         (t \<noteq> [] \<longrightarrow> \<not> cp_isspace (hd t) \<and> \<not> cp_isspace (last t))
         \<and> (\<forall>n \<in> set t. \<not> upper_changes n))
   \<and> ticker_list ''aapl, googl'' = [code_points ''AAPL'', code_points ''GOOGL'']"
proof -
  have A: "py_join (CHR '','') (py_split (CHR '','') symbols) = symbols"
    by (rule py_join_split)
  have B: "\<forall>t \<in> set (py_split (CHR '','') symbols). CHR '','' \<notin> set t"
    using py_split_no_sep by blast
  have C: "length (ticker_list symbols) = Suc (count_list symbols (CHR '',''))"
    by (simp add: ticker_list_def length_py_split)
  have D: "\<forall>i < length (py_split (CHR '','') symbols).
         ticker_list symbols ! i = py_upper (py_strip (py_split (CHR '','') symbols ! i))
         \<and> (\<exists>pre post. py_split (CHR '','') symbols ! i
                = pre @ py_strip (py_split (CHR '','') symbols ! i) @ post
              \<and> list_all py_isspace pre \<and> list_all py_isspace post)"
    using ticker_list_nth py_strip_decompose by blast
  have E: "\<forall>t \<in> set (ticker_list symbols).
         (t \<noteq> [] \<longrightarrow> \<not> cp_isspace (hd t) \<and> \<not> cp_isspace (last t))
         \<and> (\<forall>n \<in> set t. \<not> upper_changes n)"
    using ticker_token_shape by blast
  show ?thesis
    by (rule conjI [OF A conjI [OF B conjI [OF C conjI [OF D conjI [OF E ticker_list_example]]]]])
qed

text \<open>
  A list with blanks, an empty piece, a mixed-case symbol and the symbols
  \<open>caf\<close>U+00E9 and \<open>stra\<close>U+00DF\<open>e\<close>, whose upper case is \<open>CAF\<close>U+00C9 and
  \<open>STRASSE\<close>.
\<close>

theorem ticker_list_split_strip_upper_witness:
  "ticker_list ('' msft ,Brk.b,,caf'' @ [CHR 0xE9] @ '', stra'' @ [CHR 0xDF] @ ''e'')
     = [code_points ''MSFT'', code_points ''BRK.B'', [], [67, 65, 70, 201],
        code_points ''STRASSE'']
   \<and> [67, 65, 70, 201]
       \<in> set (ticker_list ('' msft ,Brk.b,,caf'' @ [CHR 0xE9] @ '', stra'' @ [CHR 0xDF] @ ''e''))
   \<and> \<not> cp_isspace 67 \<and> \<not> cp_isspace 201 \<and> \<not> upper_changes 201
   \<and> length (ticker_list ('' msft ,Brk.b,,caf'' @ [CHR 0xE9] @ '', stra'' @ [CHR 0xDF] @ ''e''))
     = 5"
proof -
  let ?s = "'' msft ,Brk.b,,caf'' @ [CHR 0xE9] @ '', stra'' @ [CHR 0xDF] @ ''e''"
  have ev: "ticker_list ?s
     = [code_points ''MSFT'', code_points ''BRK.B'', [], [67, 65, 70, 201],
        code_points ''STRASSE'']"
    by code_simp
  have m: "[67, 65, 70, 201] \<in> set (ticker_list ?s)"
    unfolding ev by simp
  have l: "length (ticker_list ?s) = 5"
    unfolding ev by simp
  from ticker_list_split_strip_upper [of ?s] m
  have "([67, 65, 70, 201] \<noteq> ([] :: nat list) \<longrightarrow>
          \<not> cp_isspace (hd [67, 65, 70, 201]) \<and> \<not> cp_isspace (last [67, 65, 70, 201]))
        \<and> (\<forall>n \<in> set [67, 65, 70, 201]. \<not> upper_changes n)"
    by blast
  then have p: "\<not> cp_isspace 67 \<and> \<not> cp_isspace 201 \<and> \<not> upper_changes 201"
    by simp
  show ?thesis
    by (rule conjI [OF ev conjI [OF m conjI [OF conjunct1 [OF p]
          conjI [OF conjunct1 [OF conjunct2 [OF p]]
            conjI [OF conjunct2 [OF conjunct2 [OF p]] l]]]]])
qed

section \<open>Properties of the range resolver\<close>

lemma dom_base_params:
  "dom [''interval'' \<mapsto> SStr interval, ''adj_timezone'' \<mapsto> SBool True,
        ''adj_ohlc'' \<mapsto> SBool False]
   = {''interval'', ''adj_timezone'', ''adj_ohlc''}"
  by auto

lemma params_period_branch:
  assumes "truthy period" "\<not> truthy start_date" "\<not> truthy end_date"
  shows "get_historical_prices_params t1 t2 period start_date end_date interval
         = [''interval'' \<mapsto> SStr interval, ''adj_timezone'' \<mapsto> SBool True,
            ''adj_ohlc'' \<mapsto> SBool False, ''period'' \<mapsto> opt_str period]"
  using assms by (simp add: get_historical_prices_params_def)

lemma params_dates_branch:
  assumes "\<not> (truthy period \<and> \<not> truthy start_date \<and> \<not> truthy end_date)"
  shows "get_historical_prices_params t1 t2 period start_date end_date interval
         = [''interval'' \<mapsto> SStr interval, ''adj_timezone'' \<mapsto> SBool True,
            ''adj_ohlc'' \<mapsto> SBool False,
            ''start'' \<mapsto> (if truthy start_date then opt_str start_date
                            else SStr (strftime_ymd (t2 - 365))),
            ''end'' \<mapsto> (if truthy end_date then opt_str end_date
                          else SStr (strftime_ymd t1))]"
  using assms by (auto simp: get_historical_prices_params_def Let_def)

text \<open>
  C1, as the code has it. An argument counts as given when it is a non-empty string:
  \<open>None\<close> and \<open>""\<close> are both absent. If \<open>period\<close> is given and neither date is,
  the parameters are \<open>interval\<close>, the two fixed flags and \<open>period\<close>, and no \<open>start\<close>
  or \<open>end\<close>. In every other case they are \<open>interval\<close>, the flags, \<open>start\<close> and \<open>end\<close>
  and no \<open>period\<close>; a given date is passed on as it is, an absent \<open>end\<close> is the current
  date and an absent \<open>start\<close> the date 365 days before the current date, both as
  \<open>strftime('%Y-%m-%d')\<close> writes them. The parameters never hold \<open>period\<close> together
  with \<open>start\<close> or \<open>end\<close>.
\<close>

theorem resolver_period_or_dates:
  fixes today_end today_start :: int
    and period start_date end_date :: "string option"
    and interval :: string
  defines "ps \<equiv> get_historical_prices_params today_end today_start
                   period start_date end_date interval"
  shows "ps ''interval'' = Some (SStr interval)
    \<and> (\<forall>p. period = Some p \<and> p \<noteq> [] \<and> \<not> truthy start_date \<and> \<not> truthy end_date \<longrightarrow>
          dom ps = {''interval'', ''adj_timezone'', ''adj_ohlc'', ''period''}
          \<and> ps ''period'' = Some (SStr p))
    \<and> (\<not> (truthy period \<and> \<not> truthy start_date \<and> \<not> truthy end_date) \<longrightarrow>
          dom ps = {''interval'', ''adj_timezone'', ''adj_ohlc'', ''start'', ''end''}
          \<and> (\<forall>s. start_date = Some s \<and> s \<noteq> [] \<longrightarrow> ps ''start'' = Some (SStr s))
          \<and> (\<not> truthy start_date \<longrightarrow>
                ps ''start'' = Some (SStr (strftime_ymd (today_start - 365))))
          \<and> (\<forall>e. end_date = Some e \<and> e \<noteq> [] \<longrightarrow> ps ''end'' = Some (SStr e))
          \<and> (\<not> truthy end_date \<longrightarrow> ps ''end'' = Some (SStr (strftime_ymd today_end))))
    \<and> \<not> (''period'' \<in> dom ps \<and> (''start'' \<in> dom ps \<or> ''end'' \<in> dom ps))"
proof -
  let ?base = "[''interval'' \<mapsto> SStr interval, ''adj_timezone'' \<mapsto> SBool True,
                ''adj_ohlc'' \<mapsto> SBool False]"
  let ?given = "truthy period \<and> \<not> truthy start_date \<and> \<not> truthy end_date"
  have A: "ps ''interval'' = Some (SStr interval)"
  proof (cases ?given)
    case True
    then show ?thesis unfolding ps_def by (simp add: params_period_branch)
  next
    case False
    then show ?thesis unfolding ps_def by (simp add: params_dates_branch)
  qed
  have B: "\<forall>p. period = Some p \<and> p \<noteq> [] \<and> \<not> truthy start_date \<and> \<not> truthy end_date \<longrightarrow>
          dom ps = {''interval'', ''adj_timezone'', ''adj_ohlc'', ''period''}
          \<and> ps ''period'' = Some (SStr p)"
  proof (intro allI impI)
    fix p
    assume h: "period = Some p \<and> p \<noteq> [] \<and> \<not> truthy start_date \<and> \<not> truthy end_date"
    then have g: "truthy period" "\<not> truthy start_date" "\<not> truthy end_date"
      by simp_all
    have eq: "ps = ?base(''period'' \<mapsto> opt_str period)"
      unfolding ps_def by (rule params_period_branch [OF g])
    have "dom ps = insert ''period'' (dom ?base)"
      unfolding eq by (simp only: dom_fun_upd option.distinct if_False)
    then have d: "dom ps = {''interval'', ''adj_timezone'', ''adj_ohlc'', ''period''}"
      unfolding dom_base_params by (simp only: insert_commute)
    have "ps ''period'' = Some (opt_str period)"
      unfolding eq by (rule fun_upd_same)
    with h have "ps ''period'' = Some (SStr p)" by simp
    with d show "dom ps = {''interval'', ''adj_timezone'', ''adj_ohlc'', ''period''}
          \<and> ps ''period'' = Some (SStr p)" by (rule conjI)
  qed
  have C: "\<not> ?given \<longrightarrow>
          dom ps = {''interval'', ''adj_timezone'', ''adj_ohlc'', ''start'', ''end''}
          \<and> (\<forall>s. start_date = Some s \<and> s \<noteq> [] \<longrightarrow> ps ''start'' = Some (SStr s))
          \<and> (\<not> truthy start_date \<longrightarrow>
                ps ''start'' = Some (SStr (strftime_ymd (today_start - 365))))
          \<and> (\<forall>e. end_date = Some e \<and> e \<noteq> [] \<longrightarrow> ps ''end'' = Some (SStr e))
          \<and> (\<not> truthy end_date \<longrightarrow> ps ''end'' = Some (SStr (strftime_ymd today_end)))"
  proof (rule impI)
    assume ng: "\<not> ?given"
    let ?sv = "if truthy start_date then opt_str start_date
               else SStr (strftime_ymd (today_start - 365))"
    let ?ev = "if truthy end_date then opt_str end_date else SStr (strftime_ymd today_end)"
    have eq: "ps = ?base(''start'' \<mapsto> ?sv, ''end'' \<mapsto> ?ev)"
      unfolding ps_def by (rule params_dates_branch [OF ng])
    have "dom ps = insert ''end'' (insert ''start'' (dom ?base))"
      unfolding eq by (simp only: dom_fun_upd option.distinct if_False)
    then have d: "dom ps = {''interval'', ''adj_timezone'', ''adj_ohlc'', ''start'', ''end''}"
      unfolding dom_base_params by (simp only: insert_commute)
    have e: "ps ''end'' = Some ?ev"
      unfolding eq by (rule fun_upd_same)
    have s: "ps ''start'' = Some ?sv"
      unfolding eq by simp
    have s1: "\<forall>s. start_date = Some s \<and> s \<noteq> [] \<longrightarrow> ps ''start'' = Some (SStr s)"
      by (simp add: s)
    have s2: "\<not> truthy start_date \<longrightarrow>
                ps ''start'' = Some (SStr (strftime_ymd (today_start - 365)))"
      by (simp add: s)
    have e1: "\<forall>e. end_date = Some e \<and> e \<noteq> [] \<longrightarrow> ps ''end'' = Some (SStr e)"
      by (simp add: e)
    have e2: "\<not> truthy end_date \<longrightarrow> ps ''end'' = Some (SStr (strftime_ymd today_end))"
      by (simp add: e)
    show "dom ps = {''interval'', ''adj_timezone'', ''adj_ohlc'', ''start'', ''end''}
          \<and> (\<forall>s. start_date = Some s \<and> s \<noteq> [] \<longrightarrow> ps ''start'' = Some (SStr s))
          \<and> (\<not> truthy start_date \<longrightarrow>
                ps ''start'' = Some (SStr (strftime_ymd (today_start - 365))))
          \<and> (\<forall>e. end_date = Some e \<and> e \<noteq> [] \<longrightarrow> ps ''end'' = Some (SStr e))
          \<and> (\<not> truthy end_date \<longrightarrow> ps ''end'' = Some (SStr (strftime_ymd today_end)))"
      by (rule conjI [OF d conjI [OF s1 conjI [OF s2 conjI [OF e1 e2]]]])
  qed
  have D: "\<not> (''period'' \<in> dom ps \<and> (''start'' \<in> dom ps \<or> ''end'' \<in> dom ps))"
  proof (cases ?given)
    case True
    then have "ps = ?base(''period'' \<mapsto> opt_str period)"
      unfolding ps_def by (simp add: params_period_branch)
    then have "ps ''start'' = None" "ps ''end'' = None" by simp_all
    then show ?thesis by (simp add: domIff)
  next
    case False
    then have "ps ''period'' = None"
      unfolding ps_def by (simp add: params_dates_branch)
    then show ?thesis by (simp add: domIff)
  qed
  show ?thesis
    by (rule conjI [OF A conjI [OF B conjI [OF C D]]])
qed

theorem resolver_period_or_dates_witness:
  "get_historical_prices_params 739923 739923 (Some ''1y'') None None ''1d'' ''period''
     = Some (SStr ''1y'')
   \<and> dom (get_historical_prices_params 739923 739923 (Some ''1y'') None None ''1d'')
     = {''interval'', ''adj_timezone'', ''adj_ohlc'', ''period''}
   \<and> dom (get_historical_prices_params 739923 739923 (Some ''1y'') (Some ''2020-01-01'') None ''1d'')
     = {''interval'', ''adj_timezone'', ''adj_ohlc'', ''start'', ''end''}
   \<and> get_historical_prices_params 739923 739923 (Some ''1y'') (Some ''2020-01-01'') None ''1d''
        ''start'' = Some (SStr ''2020-01-01'')
   \<and> get_historical_prices_params 739923 739923 (Some ''1y'') (Some ''2020-01-01'') None ''1d''
        ''end'' = Some (SStr ''2026-11-03'')
   \<and> get_historical_prices_params 739923 739923 None None None ''1d''
        ''start'' = Some (SStr ''2025-11-03'')"
proof -
  have f1: "strftime_ymd 739923 = ''2026-11-03''" by code_simp
  have f2: "strftime_ymd 739558 = ''2025-11-03''" by code_simp
  show ?thesis
    using resolver_period_or_dates [of 739923 739923 "Some ''1y''" None None "''1d''"]
      resolver_period_or_dates [of 739923 739923 "Some ''1y''" "Some ''2020-01-01''" None "''1d''"]
      resolver_period_or_dates [of 739923 739923 None None None "''1d''"]
    by (simp add: f1 f2)
qed

text \<open>
  With "provided" read as "an argument was passed", the claim fails on an empty
  string: \<open>period=""\<close> alone is provided, and the parameters hold \<open>start\<close> and \<open>end\<close>
  and no \<open>period\<close>.
\<close>

theorem resolver_empty_period_counterexample:
  "provided (Some []) \<and> \<not> provided None
   \<and> get_historical_prices_params 739923 739923 (Some []) None None ''1d'' ''period'' = None
   \<and> get_historical_prices_params 739923 739923 (Some []) None None ''1d'' ''start''
       = Some (SStr ''2025-11-03'')
   \<and> get_historical_prices_params 739923 739923 (Some []) None None ''1d'' ''end''
       = Some (SStr ''2026-11-03'')"
proof -
  have f1: "strftime_ymd 739923 = ''2026-11-03''" by code_simp
  have f2: "strftime_ymd 739558 = ''2025-11-03''" by code_simp
  show ?thesis
    by (simp add: provided_def get_historical_prices_params_def f1 f2)
qed

section \<open>Properties of rendering\<close>

lemma format_response_no_data:
  assumes "convert_to_json_serializable data = Inr j" and "j = NScalar SNone \<or> j = NList []"
  shows "format_response data title = title @ '': No data available''"
  using assms by (auto simp: format_response_def format_response_try_def)

lemma format_response_convert_error:
  assumes "convert_to_json_serializable data = Inl e"
  shows "format_response data title = title @ '': Error formatting data - '' @ exn_str e"
  using assms by (simp add: format_response_def format_response_try_def)

lemma format_response_dumps_error:
  assumes "convert_to_json_serializable data = Inr j" and "j \<noteq> NScalar SNone" and "j \<noteq> NList []"
    and "json_dumps DefaultStr j = Inl e"
  shows "format_response data title = title @ '': Error formatting data - '' @ exn_str e"
  using assms by (simp add: format_response_def format_response_try_def)

lemma format_response_json:
  assumes "convert_to_json_serializable data = Inr j" and "j \<noteq> NScalar SNone" and "j \<noteq> NList []"
    and "json_dumps DefaultStr j = Inr body"
  shows "format_response data title = title @ '':'' @ [CHR 0x0A] @ body"
  using assms by (simp add: format_response_def format_response_try_def)

text \<open>
  C2, as the code has it. For every title, an empty list, an empty tuple and the
  not-a-number value (as \<open>None\<close> itself) are rendered as
  \<open>"<title>: No data available"\<close>. An empty mapping is not: it is neither \<open>None\<close> nor
  a list, and is rendered as the title line followed by \<open>{}\<close>.
\<close>

theorem format_response_empty_inputs:
  "format_response (PList []) title = title @ '': No data available''
   \<and> format_response (PTuple []) title = title @ '': No data available''
   \<and> format_response (PScalar (SFloat FNan)) title = title @ '': No data available''
   \<and> format_response (PScalar SNone) title = title @ '': No data available''
   \<and> format_response (PDict []) title = title @ '':'' @ [CHR 0x0A] @ ''{}''"
  by (simp add: format_response_def format_response_try_def json_dumps_def)

text \<open>The empty mapping under the title \<open>Financial Data\<close>.\<close>

theorem format_response_empty_dict_counterexample:
  "format_response (PDict []) ''Financial Data'' = ''Financial Data:'' @ [CHR 0x0A] @ ''{}''
   \<and> format_response (PDict []) ''Financial Data'' \<noteq> ''Financial Data: No data available''"
  by (simp add: format_response_def format_response_try_def json_dumps_def)

text \<open>
  C3. \<open>format_response\<close> returns a string on every input. When the normalization
  raises, and when it returns a value that is not empty and the serialization raises,
  the string is \<open>"<title>: Error formatting data - <message>"\<close> with the message of
  the exception. In every case the result is the no-data line, the title line
  followed by the JSON text, or the error line.
\<close>

theorem format_response_never_raises:
  "(\<forall>e. convert_to_json_serializable data = Inl e \<longrightarrow>
        format_response data title = title @ '': Error formatting data - '' @ exn_str e)
   \<and> (\<forall>j e. convert_to_json_serializable data = Inr j \<and> j \<noteq> NScalar SNone \<and> j \<noteq> NList []
          \<and> json_dumps DefaultStr j = Inl e \<longrightarrow>
        format_response data title = title @ '': Error formatting data - '' @ exn_str e)
   \<and> (format_response data title = title @ '': No data available''
        \<or> (\<exists>body. format_response data title = title @ '':'' @ [CHR 0x0A] @ body)
        \<or> (\<exists>e. format_response data title = title @ '': Error formatting data - '' @ exn_str e))"
proof -
  have A: "\<forall>e. convert_to_json_serializable data = Inl e \<longrightarrow>
        format_response data title = title @ '': Error formatting data - '' @ exn_str e"
    by (simp add: format_response_convert_error)
  have B: "\<forall>j e. convert_to_json_serializable data = Inr j \<and> j \<noteq> NScalar SNone \<and> j \<noteq> NList []
          \<and> json_dumps DefaultStr j = Inl e \<longrightarrow>
        format_response data title = title @ '': Error formatting data - '' @ exn_str e"
    by (simp add: format_response_dumps_error)
  have C: "format_response data title = title @ '': No data available''
        \<or> (\<exists>body. format_response data title = title @ '':'' @ [CHR 0x0A] @ body)
        \<or> (\<exists>e. format_response data title = title @ '': Error formatting data - '' @ exn_str e)"
  proof (cases "convert_to_json_serializable data")
    case (Inl e)
    then show ?thesis using format_response_convert_error by blast
  next
    case (Inr j)
    show ?thesis
    proof (cases "j = NScalar SNone \<or> j = NList []")
      case True
      with Inr show ?thesis using format_response_no_data by blast
    next
      case False
      then have ne: "j \<noteq> NScalar SNone" "j \<noteq> NList []" by simp_all
      show ?thesis
      proof (cases "json_dumps DefaultStr j")
        case (Inl e)
        with Inr ne show ?thesis using format_response_dumps_error by blast
      next
        case inr: (Inr body)
        with Inr ne show ?thesis using format_response_json by blast
      qed
    qed
  qed
  show ?thesis by (rule conjI [OF A conjI [OF B C]])
qed

text \<open>
  A table whose index name is already a column makes the normalization raise, and a
  dict with a tuple key makes the serialization raise.
\<close>

theorem format_response_never_raises_witness:
  "convert_to_json_serializable
     (PDataFrame (DataFrame (Index (Some ''symbol'') [SStr ''AAPL''])
                    [''symbol'', ''price''] [[SStr ''AAPL'', SInt 1]]))
     = Inl (Exn ''ValueError'' ''cannot insert symbol, already exists'')
   \<and> format_response
       (PDataFrame (DataFrame (Index (Some ''symbol'') [SStr ''AAPL''])
                      [''symbol'', ''price''] [[SStr ''AAPL'', SInt 1]])) ''Price Data''
     = ''Price Data: Error formatting data - cannot insert symbol, already exists''
   \<and> convert_to_json_serializable (PDict [(KObj ''tuple'' ''(1, 2)'', PScalar (SInt 3))])
     = Inr (NDict [(KObj ''tuple'' ''(1, 2)'', NScalar (SInt 3))])
   \<and> json_dumps DefaultStr (NDict [(KObj ''tuple'' ''(1, 2)'', NScalar (SInt 3))])
     = Inl (Exn ''TypeError'' ''keys must be str, int, float, bool or None, not tuple'')
   \<and> format_response (PDict [(KObj ''tuple'' ''(1, 2)'', PScalar (SInt 3))]) ''Price Data''
     = ''Price Data: Error formatting data - keys must be str, int, float, bool or None, not tuple''"
proof -
  let ?df = "PDataFrame (DataFrame (Index (Some ''symbol'') [SStr ''AAPL''])
                    [''symbol'', ''price''] [[SStr ''AAPL'', SInt 1]])"
  let ?d = "PDict [(KObj ''tuple'' ''(1, 2)'', PScalar (SInt 3))]"
  let ?j = "NDict [(KObj ''tuple'' ''(1, 2)'', NScalar (SInt 3))]"
  have c1: "convert_to_json_serializable ?df
            = Inl (Exn ''ValueError'' ''cannot insert symbol, already exists'')"
    by (simp add: reset_index_def)
  have c2: "convert_to_json_serializable ?d = Inr ?j"
    by simp
  have c3: "json_dumps DefaultStr ?j
            = Inl (Exn ''TypeError'' ''keys must be str, int, float, bool or None, not tuple'')"
    by (simp add: json_dumps_def)
  from format_response_never_raises [of ?df "''Price Data''"] c1
  have r1: "format_response ?df ''Price Data''
            = ''Price Data: Error formatting data - cannot insert symbol, already exists''"
    by simp
  from format_response_never_raises [of ?d "''Price Data''"] c2 c3
  have r2: "format_response ?d ''Price Data''
     = ''Price Data: Error formatting data - keys must be str, int, float, bool or None, not tuple''"
    by simp
  from c1 c2 c3 r1 r2 show ?thesis by (intro conjI)
qed

section \<open>Properties of the normalizer\<close>

lemma convert_not_nan:
  "convert_to_json_serializable data \<noteq> Inr (NScalar (SFloat FNan))"
proof (cases data)
  case (PScalar s)
  then show ?thesis by (cases s) auto
next
  case (PDataFrame df)
  then show ?thesis
    by (auto simp: to_dict_records_def split: sum.splits)
qed (auto simp: series_to_dict_def split: sum.splits)

text \<open>
  C6. On the not-a-number value the normalizer returns \<open>None\<close>; the test
  \<open>pd.isna\<close> stands before the pass-through branch, and no input at all makes the
  normalizer return the not-a-number value itself.
\<close>

theorem convert_nan_is_none:
  "convert_to_json_serializable (PScalar (SFloat FNan)) = Inr (NScalar SNone)
   \<and> (\<forall>data. convert_to_json_serializable data \<noteq> Inr (NScalar (SFloat FNan)))"
  using convert_not_nan by simp

section \<open>Dictionaries\<close>

lemma key_eq_refl: "key_eq k k"
  by (cases k) (auto simp: key_eq_def)

lemma key_eq_sym: "key_eq a b = key_eq b a"
  by (cases a; cases b) (auto simp: key_eq_def)

lemma key_eq_trans: "key_eq a b \<Longrightarrow> key_eq b c \<Longrightarrow> key_eq a c"
  by (cases a; cases b; cases c) (auto simp: key_eq_def split: if_splits)

lemma key_eq_KStr [simp]: "key_eq k (KStr s) = (k = KStr s)" "key_eq (KStr s) k = (k = KStr s)"
  by (cases k; auto simp: key_eq_def)+

lemma dict_get_KStr: "dict_get ps (KStr s) = map_of ps (KStr s)"
  by (induction ps) auto

lemma dict_get_append:
  "dict_get (xs @ ys) k = (case dict_get xs k of Some v \<Rightarrow> Some v | None \<Rightarrow> dict_get ys k)"
  by (induction xs) auto

lemma dict_get_dict_set:
  "dict_get (dict_set d k v) k' = (if key_eq k k' then Some v else dict_get d k')"
proof (induction d)
  case Nil
  then show ?case by simp
next
  case (Cons p d)
  obtain k1 v1 where p: "p = (k1, v1)" by (cases p)
  show ?case
  proof (cases "key_eq k1 k")
    case True
    then have "key_eq k1 k' = key_eq k k'"
      using key_eq_trans key_eq_sym by blast
    with True show ?thesis by (simp add: p)
  next
    case False
    have "key_eq k1 k' \<Longrightarrow> \<not> key_eq k k'"
      using False key_eq_trans key_eq_sym by blast
    with False Cons show ?thesis by (auto simp: p)
  qed
qed

lemma dict_get_foldl:
  "dict_get (foldl (\<lambda>d (k, v). dict_set d k v) d ps) k' =
     (case dict_get (rev ps) k' of Some v \<Rightarrow> Some v | None \<Rightarrow> dict_get d k')"
proof (induction ps arbitrary: d)
  case Nil
  then show ?case by simp
next
  case (Cons p ps)
  obtain k v where p: "p = (k, v)" by (cases p)
  show ?case
    by (simp add: p Cons dict_get_append dict_get_dict_set split: option.splits)
qed

lemma dict_get_dict_of: "dict_get (dict_of ps) k = dict_get (rev ps) k"
  by (simp add: dict_of_def dict_get_foldl split: option.splits)

lemma dict_set_keys: "fst ` set (dict_set d k v) \<subseteq> insert k (fst ` set d)"
proof (induction d)
  case Nil
  then show ?case by simp
next
  case (Cons p d)
  obtain k1 v1 where p: "p = (k1, v1)" by (cases p)
  show ?case
  proof (cases "key_eq k1 k")
    case True
    then show ?thesis by (auto simp: p)
  next
    case False
    then have "fst ` set (dict_set (p # d) k v) = insert k1 (fst ` set (dict_set d k v))"
      by (simp add: p)
    also have "\<dots> \<subseteq> insert k1 (insert k (fst ` set d))"
      using Cons.IH by blast
    finally have "fst ` set (dict_set (p # d) k v) \<subseteq> insert k1 (insert k (fst ` set d))" .
    moreover have "fst ` set (p # d) = insert k1 (fst ` set d)" by (simp add: p)
    ultimately show ?thesis by blast
  qed
qed

lemma foldl_dict_set_keys:
  "fst ` set (foldl (\<lambda>d (k, v). dict_set d k v) d ps) \<subseteq> fst ` set d \<union> fst ` set ps"
proof (induction ps arbitrary: d)
  case Nil
  then show ?case by simp
next
  case (Cons p ps)
  obtain k v where p: "p = (k, v)" by (cases p)
  have "fst ` set (foldl (\<lambda>d (k, v). dict_set d k v) (dict_set d k v) ps)
        \<subseteq> fst ` set (dict_set d k v) \<union> fst ` set ps"
    by (rule Cons.IH)
  also have "\<dots> \<subseteq> insert k (fst ` set d) \<union> fst ` set ps"
    using dict_set_keys [of d k v] by blast
  finally show ?case by (auto simp: p)
qed

lemma dict_of_keys: "fst ` set (dict_of ps) \<subseteq> fst ` set ps"
  using foldl_dict_set_keys [of "[]" ps] by (simp add: dict_of_def)

lemma dict_set_fresh:
  "\<forall>kv \<in> set d. \<not> key_eq (fst kv) k \<Longrightarrow> dict_set d k v = d @ [(k, v)]"
  by (induction d) auto

lemma foldl_dict_set_distinct:
  assumes "distinct (map fst (d @ ps))" and "\<forall>kv \<in> set (d @ ps). is_KStr (fst kv)"
  shows "foldl (\<lambda>d (k, v). dict_set d k v) d ps = d @ ps"
  using assms
proof (induction ps arbitrary: d)
  case Nil
  then show ?case by simp
next
  case (Cons p ps)
  obtain k v where p: "p = (k, v)" by (cases p)
  from Cons.prems obtain s where k: "k = KStr s" by (cases k) (auto simp: p)
  have "k \<notin> fst ` set d"
    using Cons.prems(1) by (auto simp: p)
  then have fresh: "\<forall>kv \<in> set d. \<not> key_eq (fst kv) k"
    by (force simp: k)
  have "foldl (\<lambda>d (k, v). dict_set d k v) (d @ [(k, v)]) ps = (d @ [(k, v)]) @ ps"
    using Cons.prems by (intro Cons.IH) (auto simp: p)
  then show ?case by (simp add: p dict_set_fresh [OF fresh])
qed

lemma dict_of_distinct:
  "distinct (map fst ps) \<Longrightarrow> \<forall>kv \<in> set ps. is_KStr (fst kv) \<Longrightarrow> dict_of ps = ps"
  using foldl_dict_set_distinct [of "[]" ps] by (simp add: dict_of_def)

lemma map_of_rev_distinct: "distinct (map fst ps) \<Longrightarrow> map_of (rev ps) = map_of ps"
proof (induction ps)
  case Nil
  then show ?case by simp
next
  case (Cons p ps)
  then have nd: "fst p \<notin> fst ` set ps" and IH: "map_of (rev ps) = map_of ps" by auto
  have "map_of (rev (p # ps)) = map_of [p] ++ map_of (rev ps)"
    by (simp add: map_of_append)
  also have "\<dots> = map_of [p] ++ map_of ps" by (simp add: IH)
  also have "\<dots> = map_of (p # ps)"
  proof (rule ext)
    fix x
    from nd have n: "map_of ps (fst p) = None"
      by (simp add: map_of_eq_None_iff)
    show "(map_of [p] ++ map_of ps) x = map_of (p # ps) x"
    proof (cases "x = fst p")
      case True
      then show ?thesis by (simp add: map_add_def n)
    next
      case False
      then show ?thesis by (cases "map_of ps x") (simp_all add: map_add_def)
    qed
  qed
  finally show ?case .
qed

lemma row_record_keys: "set (dict_keys (row_record cols row)) \<subseteq> KStr ` set cols"
proof -
  have "fst ` set (dict_of (zip (map KStr cols) (map NScalar row)))
        \<subseteq> fst ` set (zip (map KStr cols) (map NScalar row))"
    by (rule dict_of_keys)
  also have "\<dots> \<subseteq> set (map KStr cols)"
    by (auto dest: set_zip_leftD)
  finally show ?thesis by (simp add: row_record_def)
qed

lemma row_record_distinct:
  assumes "distinct cols"
  shows "row_record cols row = NDict (zip (map KStr cols) (map NScalar row))"
proof -
  let ?ps = "zip (map KStr cols) (map NScalar row)"
  have inj: "inj_on KStr (set cols)" by (simp add: inj_on_def)
  have "distinct (map KStr cols)" using assms inj by (simp add: distinct_map)
  then have "distinct (map fst ?ps)"
    by (simp add: map_fst_zip_take)
  moreover have "\<forall>kv \<in> set ?ps. is_KStr (fst kv)"
    by (auto dest!: set_zip_leftD)
  ultimately show ?thesis by (simp add: row_record_def dict_of_distinct)
qed

section \<open>Tables\<close>

lemma insert_levels_fresh:
  "distinct ns \<Longrightarrow> set ns \<inter> set cols = {} \<Longrightarrow> insert_levels ns cols = Inr (ns @ cols)"
  by (induction ns) auto

lemma insert_levels_clash:
  "\<not> (distinct ns \<and> set ns \<inter> set cols = {}) \<Longrightarrow> \<exists>e. insert_levels ns cols = Inl e"
proof (induction ns)
  case Nil
  then show ?case by simp
next
  case (Cons n ns)
  show ?case
  proof (cases "insert_levels ns cols")
    case (Inl e)
    then show ?thesis by simp
  next
    case (Inr cols')
    then have ok: "distinct ns \<and> set ns \<inter> set cols = {}"
      using Cons.IH by auto
    then have "cols' = ns @ cols"
      using Inr by (simp add: insert_levels_fresh)
    with Cons.prems ok Inr show ?thesis by auto
  qed
qed

text \<open>
  When the level names are not distinct or one of them is already a column label,
  \<open>reset_index\<close> raises, and so does the normalizer on a table whose index it resets.
\<close>

lemma convert_index_clash_raises:
  assumes "truthy (index_name (df_index df)) \<or> \<not> is_RangeIndex (df_index df)"
    and "\<not> (distinct (level_names (df_index df) (df_columns df))
            \<and> set (level_names (df_index df) (df_columns df)) \<inter> set (df_columns df) = {})"
  shows "\<exists>e. convert_to_json_serializable (PDataFrame df) = Inl e"
proof -
  from insert_levels_clash [OF assms(2)]
  obtain e where "insert_levels (level_names (df_index df) (df_columns df)) (df_columns df) = Inl e"
    by blast
  then have "reset_index df = Inl e" by (simp add: reset_index_def)
  with assms(1) have "convert_to_json_serializable (PDataFrame df) = Inl e" by auto
  then show ?thesis by blast
qed

lemma length_index_rows:
  "index_fits idx n \<Longrightarrow> length (index_rows idx n) = n"
  by (cases idx) auto

lemma length_index_row:
  "index_fits idx n \<Longrightarrow> i < n \<Longrightarrow> length (index_rows idx n ! i) = length (level_names idx cols)"
  by (cases idx) (auto simp: fill_missing_names_def list_all_length)

lemma reset_index_fresh:
  assumes "distinct (level_names (df_index df) (df_columns df))"
    and "set (level_names (df_index df) (df_columns df)) \<inter> set (df_columns df) = {}"
  shows "reset_index df =
     Inr (DataFrame (RangeIndex None 0 1)
            (level_names (df_index df) (df_columns df) @ df_columns df)
            (map (\<lambda>(labels, row). labels @ row)
               (zip (index_rows (df_index df) (length (df_rows df))) (df_rows df))))"
  using assms by (simp add: reset_index_def insert_levels_fresh)

lemma row_record_index_key:
  assumes "distinct names" and "set names \<inter> set cols = {}"
    and "length labels = length names" and "j < length names"
  shows "item (row_record (names @ cols) (labels @ row)) (names ! j) = Some (NScalar (labels ! j))"
proof -
  let ?k = "KStr (names ! j)"
  let ?a = "zip (map KStr names) (map NScalar labels)"
  let ?b = "zip (map KStr cols) (map NScalar row)"
  have inj: "inj_on KStr (set names)" by (simp add: inj_on_def)
  have dk: "distinct (map KStr names)" using assms(1) inj by (simp add: distinct_map)
  have z: "zip (map KStr (names @ cols)) (map NScalar (labels @ row)) = ?a @ ?b"
    using assms(3) by simp
  have "names ! j \<in> set names" using assms(4) by simp
  then have "names ! j \<notin> set cols" using assms(2) by blast
  then have "?k \<notin> fst ` set ?b"
    by (auto dest!: set_zip_leftD)
  then have nb: "map_of (rev ?b) ?k = None"
    by (simp add: map_of_eq_None_iff)
  have da: "distinct (map fst ?a)"
    using dk assms(3) by (simp add: map_fst_zip_take)
  have "map_of ?a (map KStr names ! j) = Some (map NScalar labels ! j)"
    using dk assms(3,4) by (intro map_of_zip_nth) simp_all
  then have "map_of ?a ?k = Some (NScalar (labels ! j))"
    using assms(3,4) by simp
  then have "map_of (rev ?a) ?k = Some (NScalar (labels ! j))"
    by (simp add: map_of_rev_distinct [OF da])
  then have m: "map_of (rev (?a @ ?b)) ?k = Some (NScalar (labels ! j))"
    using nb by (simp add: map_of_append map_add_def)
  have "item (row_record (names @ cols) (labels @ row)) (names ! j) = dict_get (dict_of (?a @ ?b)) ?k"
    unfolding row_record_def z by simp
  also have "\<dots> = dict_get (rev (?a @ ?b)) ?k"
    by (rule dict_get_dict_of)
  also have "\<dots> = map_of (rev (?a @ ?b)) ?k"
    by (rule dict_get_KStr)
  finally show ?thesis using m by simp
qed

text \<open>
  C5. A table with a \<open>RangeIndex\<close> that has no name is emitted as the list of its
  rows: no \<open>reset_index\<close> runs, the list has one dict per row in the order of the
  rows, and the keys of every dict are column labels of the table, so no index
  column is added. When the column labels are distinct, each dict pairs the labels
  with the cells of its row in column order.
\<close>

theorem convert_default_index:
  assumes "\<not> truthy name"
  shows "\<exists>out. convert_to_json_serializable
                 (PDataFrame (DataFrame (RangeIndex name start step) cols rows))
               = Inr (NList out)
          \<and> length out = length rows
          \<and> (\<forall>i < length rows.
                out ! i = row_record cols (rows ! i)
                \<and> set (dict_keys (out ! i)) \<subseteq> KStr ` set cols
                \<and> (distinct cols \<longrightarrow>
                     out ! i = NDict (zip (map KStr cols) (map NScalar (rows ! i)))))"
proof -
  let ?out = "map (row_record cols) rows"
  have c: "convert_to_json_serializable
             (PDataFrame (DataFrame (RangeIndex name start step) cols rows)) = Inr (NList ?out)"
    using assms by (simp add: to_dict_records_def)
  have r: "\<forall>i < length rows.
                ?out ! i = row_record cols (rows ! i)
                \<and> set (dict_keys (?out ! i)) \<subseteq> KStr ` set cols
                \<and> (distinct cols \<longrightarrow>
                     ?out ! i = NDict (zip (map KStr cols) (map NScalar (rows ! i))))"
    using row_record_keys row_record_distinct by simp
  have l: "length ?out = length rows" by simp
  from c l r show ?thesis by blast
qed

theorem convert_default_index_witness:
  "\<not> truthy None
   \<and> convert_to_json_serializable
       (PDataFrame (DataFrame (RangeIndex None 0 1) [''symbol'', ''price'']
                      [[SStr ''AAPL'', SInt 1], [SStr ''MSFT'', SInt 2]]))
     = Inr (NList [NDict [(KStr ''symbol'', NScalar (SStr ''AAPL'')),
                          (KStr ''price'', NScalar (SInt 1))],
                   NDict [(KStr ''symbol'', NScalar (SStr ''MSFT'')),
                          (KStr ''price'', NScalar (SInt 2))]])"
proof -
  let ?rows = "[[SStr ''AAPL'', SInt 1], [SStr ''MSFT'', SInt 2]]"
  have t: "\<not> truthy None" by simp
  from convert_default_index [OF t, of 0 1 "[''symbol'', ''price'']" ?rows]
  obtain out where
    c: "convert_to_json_serializable
          (PDataFrame (DataFrame (RangeIndex None 0 1) [''symbol'', ''price''] ?rows))
        = Inr (NList out)"
    and l: "length out = length ?rows"
    and r: "\<forall>i < length ?rows. out ! i = row_record [''symbol'', ''price''] (?rows ! i)
                \<and> set (dict_keys (out ! i)) \<subseteq> KStr ` set [''symbol'', ''price'']
                \<and> (distinct [''symbol'', ''price''] \<longrightarrow>
                     out ! i = NDict (zip (map KStr [''symbol'', ''price''])
                                        (map NScalar (?rows ! i))))"
    by blast
  have d: "distinct [''symbol'', ''price'']" by simp
  have o: "out ! 0 = NDict [(KStr ''symbol'', NScalar (SStr ''AAPL'')),
                          (KStr ''price'', NScalar (SInt 1))]"
    "out ! 1 = NDict [(KStr ''symbol'', NScalar (SStr ''MSFT'')),
                          (KStr ''price'', NScalar (SInt 2))]"
    using r by (elim allE [of _ 0], simp add: row_record_def dict_of_def)
      (use r in \<open>elim allE [of _ 1], simp add: row_record_def dict_of_def\<close>)
  from l have "length out = 2" by simp
  then obtain a b where ab: "out = [a, b]"
    by (cases out; cases "tl out") auto
  with o have "out = [NDict [(KStr ''symbol'', NScalar (SStr ''AAPL'')),
                          (KStr ''price'', NScalar (SInt 1))],
                   NDict [(KStr ''symbol'', NScalar (SStr ''MSFT'')),
                          (KStr ''price'', NScalar (SInt 2))]]"
    by simp
  with c t show ?thesis by simp
qed

text \<open>
  C4, as the code has it. Take a well-formed table whose index has a non-empty name
  or is not a \<open>RangeIndex\<close>, and let the names \<open>reset_index\<close> gives the index levels
  (the name of a named index) be distinct and differ from every column label. Then
  the normalizer returns one dict per row, in row order, and the dict of row \<open>i\<close>
  has under the name of every level the label of row \<open>i\<close> at that level. A named flat
  index has the single level name that is its name. When a level name is already a
  column label, \<open>reset_index\<close> raises and nothing is emitted.
\<close>

theorem convert_reinstates_index:
  assumes "wf_frame df"
    and "truthy (index_name (df_index df)) \<or> \<not> is_RangeIndex (df_index df)"
    and "distinct (level_names (df_index df) (df_columns df))"
    and "set (level_names (df_index df) (df_columns df)) \<inter> set (df_columns df) = {}"
  shows "\<exists>out. convert_to_json_serializable (PDataFrame df) = Inr (NList out)
          \<and> length out = length (df_rows df)
          \<and> (\<forall>i < length (df_rows df).
               \<forall>j < length (level_names (df_index df) (df_columns df)).
                 item (out ! i) (level_names (df_index df) (df_columns df) ! j)
                 = Some (NScalar (index_rows (df_index df) (length (df_rows df)) ! i ! j)))
          \<and> (\<forall>s. index_name (df_index df) = Some s \<longrightarrow>
                 level_names (df_index df) (df_columns df) = [s])"
proof -
  let ?idx = "df_index df" and ?cols = "df_columns df" and ?rows = "df_rows df"
  let ?names = "level_names ?idx ?cols"
  let ?n = "length ?rows"
  let ?irows = "index_rows ?idx ?n"
  let ?rows' = "map (\<lambda>(labels, row). labels @ row) (zip ?irows ?rows)"
  let ?out = "map (row_record (?names @ ?cols)) ?rows'"
  from assms(1) have fits: "index_fits ?idx ?n" by (simp add: wf_frame_def)
  have li: "length ?irows = ?n" using fits by (rule length_index_rows)
  have c: "convert_to_json_serializable (PDataFrame df) = Inr (NList ?out)"
    using assms(2) reset_index_fresh [OF assms(3,4)] by (simp add: to_dict_records_def)
  have l: "length ?out = ?n" using li by simp
  have r: "\<forall>i < ?n. \<forall>j < length ?names.
             item (?out ! i) (?names ! j) = Some (NScalar (?irows ! i ! j))"
  proof (intro allI impI)
    fix i j
    assume i: "i < ?n" and j: "j < length ?names"
    have "?rows' ! i = ?irows ! i @ ?rows ! i"
      using i li by simp
    then have "?out ! i = row_record (?names @ ?cols) (?irows ! i @ ?rows ! i)"
      using i li by simp
    moreover have "length (?irows ! i) = length ?names"
      using fits i by (rule length_index_row)
    ultimately show "item (?out ! i) (?names ! j) = Some (NScalar (?irows ! i ! j))"
      using row_record_index_key [OF assms(3,4) _ j] by simp
  qed
  have nm: "\<forall>s. index_name ?idx = Some s \<longrightarrow> ?names = [s]"
    by (cases ?idx) auto
  from c l r nm show ?thesis by blast
qed

text \<open>
  A table of two rows indexed by \<open>symbol\<close>; and the same index over a table that
  already has a column \<open>symbol\<close>.
\<close>

theorem convert_reinstates_index_witness:
  "wf_frame (DataFrame (Index (Some ''symbol'') [SStr ''AAPL'', SStr ''MSFT''])
               [''price''] [[SInt 1], [SInt 2]])
   \<and> convert_to_json_serializable
       (PDataFrame (DataFrame (Index (Some ''symbol'') [SStr ''AAPL'', SStr ''MSFT''])
                      [''price''] [[SInt 1], [SInt 2]]))
     = Inr (NList [NDict [(KStr ''symbol'', NScalar (SStr ''AAPL'')),
                          (KStr ''price'', NScalar (SInt 1))],
                   NDict [(KStr ''symbol'', NScalar (SStr ''MSFT'')),
                          (KStr ''price'', NScalar (SInt 2))]])
   \<and> item (NDict [(KStr ''symbol'', NScalar (SStr ''MSFT'')),
                   (KStr ''price'', NScalar (SInt 2))]) ''symbol''
     = Some (NScalar (SStr ''MSFT''))"
proof -
  let ?df = "DataFrame (Index (Some ''symbol'') [SStr ''AAPL'', SStr ''MSFT''])
               [''price''] [[SInt 1], [SInt 2]]"
  let ?r0 = "NDict [(KStr ''symbol'', NScalar (SStr ''AAPL'')), (KStr ''price'', NScalar (SInt 1))]"
  let ?r1 = "NDict [(KStr ''symbol'', NScalar (SStr ''MSFT'')), (KStr ''price'', NScalar (SInt 2))]"
  have w: "wf_frame ?df" by (simp add: wf_frame_def)
  have n: "truthy (index_name (df_index ?df)) \<or> \<not> is_RangeIndex (df_index ?df)" by simp
  have d: "distinct (level_names (df_index ?df) (df_columns ?df))" by simp
  have f: "set (level_names (df_index ?df) (df_columns ?df)) \<inter> set (df_columns ?df) = {}"
    by simp
  have c: "convert_to_json_serializable (PDataFrame ?df) = Inr (NList [?r0, ?r1])"
    by (simp add: reset_index_def to_dict_records_def row_record_def dict_of_def)
  from convert_reinstates_index [OF w n d f] c
  have "\<forall>i < length (df_rows ?df).
               \<forall>j < length (level_names (df_index ?df) (df_columns ?df)).
                 item ([?r0, ?r1] ! i) (level_names (df_index ?df) (df_columns ?df) ! j)
                 = Some (NScalar (index_rows (df_index ?df) (length (df_rows ?df)) ! i ! j))"
    by auto
  then have "item ([?r0, ?r1] ! 1) (level_names (df_index ?df) (df_columns ?df) ! 0)
                 = Some (NScalar (index_rows (df_index ?df) (length (df_rows ?df)) ! 1 ! 0))"
    by simp
  then have "item ?r1 ''symbol'' = Some (NScalar (SStr ''MSFT''))"
    by simp
  with w c show ?thesis by simp
qed

theorem convert_index_clash_counterexample:
  "wf_frame (DataFrame (Index (Some ''symbol'') [SStr ''AAPL'', SStr ''MSFT''])
               [''symbol'', ''price''] [[SStr ''aapl'', SInt 1], [SStr ''msft'', SInt 2]])
   \<and> truthy (index_name (Index (Some ''symbol'') [SStr ''AAPL'', SStr ''MSFT'']))
   \<and> convert_to_json_serializable
       (PDataFrame (DataFrame (Index (Some ''symbol'') [SStr ''AAPL'', SStr ''MSFT''])
                      [''symbol'', ''price''] [[SStr ''aapl'', SInt 1], [SStr ''msft'', SInt 2]]))
     = Inl (Exn ''ValueError'' ''cannot insert symbol, already exists'')"
  by (simp add: wf_frame_def reset_index_def)

section \<open>Idempotence of the normalizer\<close>

lemma json_safe_scalar_fixed: "json_safe_scalar s \<Longrightarrow> fixed_scalar s"
  by (cases s rule: json_safe_scalar.cases) (auto simp: fixed_scalar_def)

lemma json_safe_all_fixed:
  "json_safe v \<Longrightarrow> all_scalars fixed_scalar v"
  "json_safe_list xs \<Longrightarrow> all_scalars_list fixed_scalar xs"
  "json_safe_items kvs \<Longrightarrow> all_scalars_items fixed_scalar kvs"
  by (induction v and xs and kvs rule: json_safe_json_safe_list_json_safe_items.induct)
     (auto simp: json_safe_scalar_fixed)

lemma convert_fixed_scalar:
  "fixed_scalar s \<Longrightarrow> convert_to_json_serializable (PScalar s) = Inr (NScalar s)"
  by (auto simp: fixed_scalar_def)

lemma convert_raw_fixed:
  "all_scalars fixed_scalar v \<Longrightarrow> convert_to_json_serializable (raw v) = Inr v"
  "all_scalars_list fixed_scalar xs \<Longrightarrow> convert_list (raw_list xs) = Inr xs"
  "all_scalars_items fixed_scalar kvs \<Longrightarrow> convert_items (raw_items kvs) = Inr kvs"
proof (induction v and xs and kvs rule: raw_raw_list_raw_items.induct)
  case (1 s)
  then show ?case using convert_fixed_scalar by simp
qed auto

lemma all_scalars_items_iff:
  "all_scalars_items P kvs = (\<forall>kv \<in> set kvs. all_scalars P (snd kv))"
  by (induction kvs) auto

lemma all_scalars_list_iff:
  "all_scalars_list P xs = (\<forall>x \<in> set xs. all_scalars P x)"
  by (induction xs) auto

lemma dict_set_values: "snd ` set (dict_set d k v) \<subseteq> insert v (snd ` set d)"
proof (induction d)
  case Nil
  then show ?case by simp
next
  case (Cons p d)
  obtain k1 v1 where p: "p = (k1, v1)" by (cases p)
  show ?case
  proof (cases "key_eq k1 k")
    case True
    then show ?thesis by (auto simp: p)
  next
    case False
    then have "snd ` set (dict_set (p # d) k v) = insert v1 (snd ` set (dict_set d k v))"
      by (simp add: p)
    also have "\<dots> \<subseteq> insert v1 (insert v (snd ` set d))"
      using Cons.IH by blast
    finally have "snd ` set (dict_set (p # d) k v) \<subseteq> insert v1 (insert v (snd ` set d))" .
    moreover have "snd ` set (p # d) = insert v1 (snd ` set d)" by (simp add: p)
    ultimately show ?thesis by blast
  qed
qed

lemma foldl_dict_set_values:
  "snd ` set (foldl (\<lambda>d (k, v). dict_set d k v) d ps) \<subseteq> snd ` set d \<union> snd ` set ps"
proof (induction ps arbitrary: d)
  case Nil
  then show ?case by simp
next
  case (Cons p ps)
  obtain k v where p: "p = (k, v)" by (cases p)
  have "snd ` set (foldl (\<lambda>d (k, v). dict_set d k v) (dict_set d k v) ps)
        \<subseteq> snd ` set (dict_set d k v) \<union> snd ` set ps"
    by (rule Cons.IH)
  also have "\<dots> \<subseteq> insert v (snd ` set d) \<union> snd ` set ps"
    using dict_set_values [of d k v] by blast
  finally show ?case by (auto simp: p)
qed

lemma dict_of_values: "snd ` set (dict_of ps) \<subseteq> snd ` set ps"
  using foldl_dict_set_values [of "[]" ps] by (simp add: dict_of_def)

lemma row_record_fixed:
  assumes "list_all fixed_scalar row"
  shows "all_scalars fixed_scalar (row_record cols row)"
proof -
  let ?ps = "zip (map KStr cols) (map NScalar row)"
  have "snd ` set (dict_of ?ps) \<subseteq> snd ` set ?ps" by (rule dict_of_values)
  also have "\<dots> \<subseteq> NScalar ` set row" by (auto dest: set_zip_rightD)
  finally have "\<forall>kv \<in> set (dict_of ?ps). snd kv \<in> NScalar ` set row" by blast
  then have "\<forall>kv \<in> set (dict_of ?ps). all_scalars fixed_scalar (snd kv)"
    using assms by (auto simp: list_all_iff)
  then show ?thesis by (simp add: row_record_def all_scalars_items_iff)
qed

lemma to_dict_records_fixed:
  assumes "list_all (list_all fixed_scalar) (df_rows df)"
  shows "all_scalars fixed_scalar (to_dict_records df)"
  using assms by (auto simp: to_dict_records_def all_scalars_list_iff list_all_iff row_record_fixed)

lemma index_rows_fixed:
  assumes "list_all fixed_scalar (index_labels idx)"
  shows "list_all (list_all fixed_scalar) (index_rows idx n)"
  using assms by (cases idx) (auto simp: list_all_iff fixed_scalar_def)

lemma reset_index_fixed:
  assumes "reset_index df = Inr df'"
    and "list_all fixed_scalar (index_labels (df_index df))"
    and "list_all (list_all fixed_scalar) (df_rows df)"
  shows "list_all (list_all fixed_scalar) (df_rows df')"
proof -
  from assms(1) have
    "df_rows df' = map (\<lambda>(labels, row). labels @ row)
                     (zip (index_rows (df_index df) (length (df_rows df))) (df_rows df))"
    by (auto simp: reset_index_def split: sum.splits)
  moreover have "list_all (list_all fixed_scalar) (index_rows (df_index df) (length (df_rows df)))"
    using assms(2) by (rule index_rows_fixed)
  ultimately show ?thesis
    using assms(3) by (auto simp: list_all_iff dest: set_zip_leftD set_zip_rightD)
qed

lemma series_to_dict_fixed:
  assumes "list_all (\<lambda>kv. fixed_scalar (snd kv)) items"
  shows "all_scalars fixed_scalar (series_to_dict items)"
proof -
  let ?ps = "map (\<lambda>(k, v). (k, NScalar v)) items"
  have "snd ` set (dict_of ?ps) \<subseteq> snd ` set ?ps" by (rule dict_of_values)
  then have "\<forall>kv \<in> set (dict_of ?ps). snd kv \<in> snd ` set ?ps" by blast
  then have "\<forall>kv \<in> set (dict_of ?ps). all_scalars fixed_scalar (snd kv)"
    using assms by (force simp: list_all_iff)
  then show ?thesis by (simp add: series_to_dict_def all_scalars_items_iff)
qed

lemma convert_output_fixed:
  "cells_fixed x \<Longrightarrow> convert_to_json_serializable x = Inr y \<Longrightarrow> all_scalars fixed_scalar y"
  "cells_fixed_list xs \<Longrightarrow> convert_list xs = Inr ys \<Longrightarrow> all_scalars_list fixed_scalar ys"
  "cells_fixed_items kvs \<Longrightarrow> convert_items kvs = Inr kys \<Longrightarrow> all_scalars_items fixed_scalar kys"
proof (induction x and xs and kvs arbitrary: y and ys and kys
       rule: convert_to_json_serializable_convert_list_convert_items.induct)
  case (1 df)
  then show ?case
    by (auto simp: to_dict_records_fixed reset_index_fixed split: if_splits sum.splits)
next
  case (2 items)
  then show ?case by (auto simp: series_to_dict_fixed)
next
  case (6 s)
  then show ?case by (auto simp: fixed_scalar_def split: if_splits)
qed (auto split: sum.splits)

text \<open>
  C7, as the code has it. On a JSON-safe value (\<open>null\<close>, a boolean, an integer, a
  finite float, a string, a list or a string-keyed mapping of such values) the
  normalizer returns the value unchanged. Normalizing twice is the same as normalizing
  once for every input in which the cells and index labels of the tables and series
  are \<open>None\<close> or values \<open>pd.isna\<close> rejects: the normalizer does not look inside
  the rows that \<open>to_dict\<close> returns.
\<close>

theorem convert_idempotent:
  "(json_safe v \<longrightarrow> convert_to_json_serializable (raw v) = Inr v)
   \<and> (cells_fixed x \<longrightarrow> convert_twice x = convert_to_json_serializable x)"
proof -
  have A: "json_safe v \<longrightarrow> convert_to_json_serializable (raw v) = Inr v"
    using json_safe_all_fixed(1) convert_raw_fixed(1) by blast
  have B: "cells_fixed x \<longrightarrow> convert_twice x = convert_to_json_serializable x"
  proof
    assume c: "cells_fixed x"
    show "convert_twice x = convert_to_json_serializable x"
    proof (cases "convert_to_json_serializable x")
      case (Inl e)
      then show ?thesis by (simp add: convert_twice_def)
    next
      case (Inr y)
      with c have "all_scalars fixed_scalar y" by (rule convert_output_fixed(1))
      then have "convert_to_json_serializable (raw y) = Inr y" by (rule convert_raw_fixed(1))
      with Inr show ?thesis by (simp add: convert_twice_def)
    qed
  qed
  from A B show ?thesis by (rule conjI)
qed

theorem convert_idempotent_witness:
  "json_safe (NDict [(KStr ''a'', NList [NScalar (SInt 1), NScalar SNone, NScalar (SStr ''x'')])])
   \<and> convert_to_json_serializable
       (raw (NDict [(KStr ''a'', NList [NScalar (SInt 1), NScalar SNone, NScalar (SStr ''x'')])]))
     = Inr (NDict [(KStr ''a'', NList [NScalar (SInt 1), NScalar SNone, NScalar (SStr ''x'')])])
   \<and> cells_fixed (PTuple [PScalar (SFloat FNan),
         PDataFrame (DataFrame (RangeIndex None 0 1) [''price''] [[SInt 1]])])
   \<and> convert_twice (PTuple [PScalar (SFloat FNan),
         PDataFrame (DataFrame (RangeIndex None 0 1) [''price''] [[SInt 1]])])
     = Inr (NList [NScalar SNone, NList [NDict [(KStr ''price'', NScalar (SInt 1))]]])"
proof -
  let ?v = "NDict [(KStr ''a'', NList [NScalar (SInt 1), NScalar SNone, NScalar (SStr ''x'')])]"
  let ?x = "PTuple [PScalar (SFloat FNan),
         PDataFrame (DataFrame (RangeIndex None 0 1) [''price''] [[SInt 1]])]"
  have s: "json_safe ?v" by simp
  have c: "cells_fixed ?x" by (simp add: fixed_scalar_def)
  have e: "convert_to_json_serializable ?x
           = Inr (NList [NScalar SNone, NList [NDict [(KStr ''price'', NScalar (SInt 1))]]])"
    by (simp add: to_dict_records_def row_record_def dict_of_def)
  from convert_idempotent [of ?v ?x] s c e show ?thesis by simp
qed

text \<open>
  A table with a not-a-number cell: the first call leaves the cell as it is, the
  second call replaces it by \<open>None\<close>.
\<close>

theorem convert_not_idempotent_counterexample:
  "convert_to_json_serializable
     (PDataFrame (DataFrame (RangeIndex None 0 1) [''price''] [[SFloat FNan]]))
     = Inr (NList [NDict [(KStr ''price'', NScalar (SFloat FNan))]])
   \<and> convert_twice (PDataFrame (DataFrame (RangeIndex None 0 1) [''price''] [[SFloat FNan]]))
     = Inr (NList [NDict [(KStr ''price'', NScalar SNone)]])
   \<and> convert_twice (PDataFrame (DataFrame (RangeIndex None 0 1) [''price''] [[SFloat FNan]]))
     \<noteq> convert_to_json_serializable
         (PDataFrame (DataFrame (RangeIndex None 0 1) [''price''] [[SFloat FNan]]))"
  by (simp add: convert_twice_def to_dict_records_def row_record_def dict_of_def)

section \<open>Properties of the symbol search\<close>

lemma format_quote_dict: "format_quote (NDict kvs) = Inr (four_fields (NDict kvs))"
  by (simp add: format_quote_def four_fields_def field_def dict_of_def split: option.splits)

lemma format_quote_Inr: "format_quote q = Inr r \<Longrightarrow> r = four_fields q"
proof (cases q)
  case (NDict kvs)
  then show "format_quote q = Inr r \<Longrightarrow> r = four_fields q"
    by (simp add: format_quote_dict)
qed (simp_all add: format_quote_def)

lemma format_quotes_dicts: "list_all is_NDict qs \<Longrightarrow> format_quotes qs = Inr (map four_fields qs)"
proof (induction qs)
  case Nil
  then show ?case by simp
next
  case (Cons q qs)
  then obtain kvs where "q = NDict kvs" by (cases q) auto
  with Cons show ?case by (simp add: format_quote_dict)
qed

lemma format_quotes_Inr: "format_quotes qs = Inr rs \<Longrightarrow> rs = map four_fields qs"
  by (induction qs arbitrary: rs) (auto split: sum.splits dest: format_quote_Inr)

lemma py_slice_to_length: "py_slice_to v n = Inr qs \<Longrightarrow> length qs \<le> n"
  by (cases "(v, n)" rule: py_slice_to.cases) auto

lemma formatted_results_Some:
  assumes "formatted_results results = Inr (Some rs)"
  shows "\<exists>qs. length qs \<le> 10 \<and> rs = map four_fields qs"
proof -
  from assms obtain quotes qs where "py_slice_to quotes 10 = Inr qs" "format_quotes qs = Inr rs"
    by (auto simp: formatted_results_def split: if_splits sum.splits bool.splits)
  then show ?thesis
    using py_slice_to_length format_quotes_Inr by blast
qed

text \<open>
  C9. Whatever the upstream search returns, a call that formats results formats at
  most ten, and each is a dict with exactly the keys \<open>symbol\<close>, \<open>name\<close>, \<open>type\<close>
  and \<open>exchange\<close>, in this order. When the upstream result is a dict whose \<open>quotes\<close>
  is a list of dicts, of any length, the formatted results are the four-field entries
  of its first ten quotes, a missing field being the empty string, and the response
  is the line \<open>Search Results for '<query>':\<close> followed by their JSON text.
\<close>

theorem search_symbols_first_ten:
  "(\<forall>rs. formatted_results results = Inr (Some rs) \<longrightarrow>
        length rs \<le> 10
        \<and> (\<forall>r \<in> set rs. dict_keys r
               = [KStr ''symbol'', KStr ''name'', KStr ''type'', KStr ''exchange'']))
   \<and> (\<forall>quotes. item results ''quotes'' = Some (NList quotes) \<and> list_all is_NDict quotes \<longrightarrow>
        formatted_results results = Inr (Some (map four_fields (take 10 quotes)))
        \<and> length (map four_fields (take 10 quotes)) = min 10 (length quotes)
        \<and> (\<forall>q \<in> set quotes.
              (item q ''symbol'' = None \<longrightarrow> item (four_fields q) ''symbol'' = Some empty_str)
              \<and> (item q ''longname'' = None \<and> item q ''shortname'' = None \<longrightarrow>
                   item (four_fields q) ''name'' = Some empty_str)
              \<and> (item q ''quoteType'' = None \<longrightarrow> item (four_fields q) ''type'' = Some empty_str)
              \<and> (item q ''exchange'' = None \<longrightarrow>
                   item (four_fields q) ''exchange'' = Some empty_str)))
   \<and> (\<forall>rs body. formatted_results results = Inr (Some rs)
          \<and> json_dumps NoDefault (NList rs) = Inr body \<longrightarrow>
        search_symbols (Inr results) query
          = ''Search Results for '' @ quoted query @ '':'' @ [CHR 0x0A] @ body)"
proof -
  have A: "\<forall>rs. formatted_results results = Inr (Some rs) \<longrightarrow>
        length rs \<le> 10
        \<and> (\<forall>r \<in> set rs. dict_keys r
               = [KStr ''symbol'', KStr ''name'', KStr ''type'', KStr ''exchange''])"
  proof (intro allI impI)
    fix rs
    assume "formatted_results results = Inr (Some rs)"
    then obtain qs where "length qs \<le> 10" "rs = map four_fields qs"
      using formatted_results_Some by blast
    then show "length rs \<le> 10
        \<and> (\<forall>r \<in> set rs. dict_keys r
               = [KStr ''symbol'', KStr ''name'', KStr ''type'', KStr ''exchange''])"
      by (auto simp: four_fields_def)
  qed
  have B: "\<forall>quotes. item results ''quotes'' = Some (NList quotes) \<and> list_all is_NDict quotes \<longrightarrow>
        formatted_results results = Inr (Some (map four_fields (take 10 quotes)))
        \<and> length (map four_fields (take 10 quotes)) = min 10 (length quotes)
        \<and> (\<forall>q \<in> set quotes.
              (item q ''symbol'' = None \<longrightarrow> item (four_fields q) ''symbol'' = Some empty_str)
              \<and> (item q ''longname'' = None \<and> item q ''shortname'' = None \<longrightarrow>
                   item (four_fields q) ''name'' = Some empty_str)
              \<and> (item q ''quoteType'' = None \<longrightarrow> item (four_fields q) ''type'' = Some empty_str)
              \<and> (item q ''exchange'' = None \<longrightarrow>
                   item (four_fields q) ''exchange'' = Some empty_str))"
  proof (intro allI impI)
    fix quotes
    assume h: "item results ''quotes'' = Some (NList quotes) \<and> list_all is_NDict quotes"
    then obtain kvs where r: "results = NDict kvs"
      and g: "dict_get kvs (KStr ''quotes'') = Some (NList quotes)"
      by (cases results) auto
    from g have ne: "kvs \<noteq> []" by auto
    from h have "list_all is_NDict (take 10 quotes)"
      by (auto simp: list_all_iff dest: in_set_takeD)
    then have "format_quotes (take 10 quotes) = Inr (map four_fields (take 10 quotes))"
      by (rule format_quotes_dicts)
    then have f: "formatted_results results = Inr (Some (map four_fields (take 10 quotes)))"
      using g ne by (simp add: formatted_results_def r)
    have l: "length (map four_fields (take 10 quotes)) = min 10 (length quotes)"
      by (simp add: min.commute)
    have m: "\<forall>q \<in> set quotes.
              (item q ''symbol'' = None \<longrightarrow> item (four_fields q) ''symbol'' = Some empty_str)
              \<and> (item q ''longname'' = None \<and> item q ''shortname'' = None \<longrightarrow>
                   item (four_fields q) ''name'' = Some empty_str)
              \<and> (item q ''quoteType'' = None \<longrightarrow> item (four_fields q) ''type'' = Some empty_str)
              \<and> (item q ''exchange'' = None \<longrightarrow>
                   item (four_fields q) ''exchange'' = Some empty_str)"
      by (simp add: four_fields_def field_def)
    from f l m show "formatted_results results = Inr (Some (map four_fields (take 10 quotes)))
        \<and> length (map four_fields (take 10 quotes)) = min 10 (length quotes)
        \<and> (\<forall>q \<in> set quotes.
              (item q ''symbol'' = None \<longrightarrow> item (four_fields q) ''symbol'' = Some empty_str)
              \<and> (item q ''longname'' = None \<and> item q ''shortname'' = None \<longrightarrow>
                   item (four_fields q) ''name'' = Some empty_str)
              \<and> (item q ''quoteType'' = None \<longrightarrow> item (four_fields q) ''type'' = Some empty_str)
              \<and> (item q ''exchange'' = None \<longrightarrow>
                   item (four_fields q) ''exchange'' = Some empty_str))"
      by (intro conjI)
  qed
  have C: "\<forall>rs body. formatted_results results = Inr (Some rs)
          \<and> json_dumps NoDefault (NList rs) = Inr body \<longrightarrow>
        search_symbols (Inr results) query
          = ''Search Results for '' @ quoted query @ '':'' @ [CHR 0x0A] @ body"
    by (simp add: search_symbols_def search_symbols_try_def)
  show ?thesis by (rule conjI [OF A conjI [OF B C]])
qed

text \<open>An upstream result with eleven quotes, each with a symbol and a short name only.\<close>

theorem search_symbols_first_ten_witness:
  "item (NDict [(KStr ''count'', NScalar (SInt 11)),
                (KStr ''quotes'', NList (replicate 11
                   (NDict [(KStr ''symbol'', NScalar (SStr ''AAPL'')),
                           (KStr ''shortname'', NScalar (SStr ''Apple''))])))]) ''quotes''
     = Some (NList (replicate 11
                   (NDict [(KStr ''symbol'', NScalar (SStr ''AAPL'')),
                           (KStr ''shortname'', NScalar (SStr ''Apple''))])))
   \<and> formatted_results
      (NDict [(KStr ''count'', NScalar (SInt 11)),
              (KStr ''quotes'', NList (replicate 11
                 (NDict [(KStr ''symbol'', NScalar (SStr ''AAPL'')),
                         (KStr ''shortname'', NScalar (SStr ''Apple''))])))])
     = Inr (Some (replicate 10
         (NDict [(KStr ''symbol'', NScalar (SStr ''AAPL'')),
                 (KStr ''name'', NScalar (SStr ''Apple'')),
                 (KStr ''type'', NScalar (SStr [])),
                 (KStr ''exchange'', NScalar (SStr []))])))"
proof -
  let ?q = "NDict [(KStr ''symbol'', NScalar (SStr ''AAPL'')),
                   (KStr ''shortname'', NScalar (SStr ''Apple''))]"
  let ?r = "NDict [(KStr ''count'', NScalar (SInt 11)), (KStr ''quotes'', NList (replicate 11 ?q))]"
  let ?e = "NDict [(KStr ''symbol'', NScalar (SStr ''AAPL'')),
                 (KStr ''name'', NScalar (SStr ''Apple'')),
                 (KStr ''type'', NScalar (SStr [])),
                 (KStr ''exchange'', NScalar (SStr []))]"
  have i: "item ?r ''quotes'' = Some (NList (replicate 11 ?q))" by simp
  have d: "list_all is_NDict (replicate 11 ?q)" by (simp add: list_all_iff)
  have f: "four_fields ?q = ?e"
    by (simp add: four_fields_def field_def empty_str_def)
  from search_symbols_first_ten [of ?r] i d
  have "formatted_results ?r = Inr (Some (map four_fields (take 10 (replicate 11 ?q))))"
    by blast
  then have "formatted_results ?r = Inr (Some (replicate 10 ?e))"
    by (simp add: f)
  with i show ?thesis by simp
qed

section \<open>Numerals\<close>

lemma of_char_digit_char: "d < 10 \<Longrightarrow> (of_char (digit_char d) :: nat) = 48 + d"
  by (simp add: digit_char_def)

lemma is_digit_digit_char: "d < 10 \<Longrightarrow> is_digit (digit_char d)"
  by (simp add: is_digit_def of_char_digit_char)

lemma digit_char_0: "digit_char 0 = CHR ''0''"
  by code_simp

lemma digit_char_eq_0: "d < 10 \<Longrightarrow> digit_char d = CHR ''0'' \<Longrightarrow> d = 0"
proof -
  assume d: "d < 10" and e: "digit_char d = CHR ''0''"
  from e have "(of_char (digit_char d) :: nat) = of_char (CHR ''0'')" by simp
  with d show "d = 0" by (simp add: of_char_digit_char)
qed

lemma string_of_nat_small: "n < 10 \<Longrightarrow> string_of_nat n = [digit_char n]"
  by (simp add: string_of_nat.simps)

lemma string_of_nat_big:
  "\<not> n < 10 \<Longrightarrow> string_of_nat n = string_of_nat (n div 10) @ [digit_char (n mod 10)]"
  by (subst string_of_nat.simps) simp

lemma string_of_nat_nonempty: "string_of_nat n \<noteq> []"
  by (cases "n < 10") (simp_all add: string_of_nat_small string_of_nat_big)

lemma string_of_nat_digits: "list_all is_digit (string_of_nat n)"
proof (induction n rule: string_of_nat.induct)
  case (1 n)
  show ?case
  proof (cases "n < 10")
    case True
    then show ?thesis by (simp add: string_of_nat_small is_digit_digit_char)
  next
    case False
    with 1 show ?thesis by (simp add: string_of_nat_big is_digit_digit_char)
  qed
qed

lemma nat_of_digits_snoc:
  "nat_of_digits (s @ [c]) = 10 * nat_of_digits s + ((of_char c :: nat) - 48)"
  by (simp add: nat_of_digits_def)

lemma nat_of_digits_string_of_nat: "nat_of_digits (string_of_nat n) = n"
proof (induction n rule: string_of_nat.induct)
  case (1 n)
  show ?case
  proof (cases "n < 10")
    case True
    then show ?thesis
      by (simp add: string_of_nat_small nat_of_digits_def of_char_digit_char)
  next
    case False
    with 1 have "nat_of_digits (string_of_nat (n div 10)) = n div 10" by simp
    with False show ?thesis
      by (simp add: string_of_nat_big nat_of_digits_snoc of_char_digit_char)
  qed
qed

lemma string_of_nat_hd: "hd (string_of_nat n) = CHR ''0'' \<Longrightarrow> n = 0"
proof (induction n rule: string_of_nat.induct)
  case (1 n)
  show ?case
  proof (cases "n < 10")
    case True
    with 1(2) show ?thesis by (simp add: string_of_nat_small digit_char_eq_0)
  next
    case False
    then have "hd (string_of_nat n) = hd (string_of_nat (n div 10))"
      by (simp add: string_of_nat_big string_of_nat_nonempty)
    with 1 False have "n div 10 = 0" by simp
    with False show ?thesis by simp
  qed
qed

lemma is_nat_literal_string_of_nat: "is_nat_literal (string_of_nat n)"
proof (cases "n = 0")
  case True
  then show ?thesis
    by (simp add: is_nat_literal_def string_of_nat_small digit_char_0 is_digit_def)
next
  case False
  then have "hd (string_of_nat n) \<noteq> CHR ''0''" using string_of_nat_hd by blast
  then show ?thesis
    by (simp add: is_nat_literal_def string_of_nat_nonempty string_of_nat_digits)
qed

lemma is_digit_not_minus: "is_digit c \<Longrightarrow> c \<noteq> CHR ''-''"
  by (auto simp: is_digit_def)

lemma string_of_nat_hd_digit: "is_digit (hd (string_of_nat n))"
  using string_of_nat_digits [of n] string_of_nat_nonempty [of n]
  by (cases "string_of_nat n") simp_all

lemma is_int_literal_string_of_int: "is_int_literal (string_of_int i)"
proof (cases "i < 0")
  case True
  then show ?thesis
    by (simp add: is_int_literal_def string_of_int_def strip_minus_def
        is_nat_literal_string_of_nat)
next
  case False
  have "hd (string_of_nat (nat i)) \<noteq> CHR ''-''"
    using string_of_nat_hd_digit is_digit_not_minus by blast
  then have "strip_minus (string_of_nat (nat i)) = string_of_nat (nat i)"
    by (cases "string_of_nat (nat i)") (simp_all add: strip_minus_def)
  with False show ?thesis
    by (simp add: is_int_literal_def string_of_int_def is_nat_literal_string_of_nat)
qed

lemma int_of_literal_string_of_int: "int_of_literal (string_of_int i) = i"
proof (cases "i < 0")
  case True
  then show ?thesis
    by (simp add: int_of_literal_def string_of_int_def nat_of_digits_string_of_nat)
next
  case False
  have h: "hd (string_of_nat (nat i)) \<noteq> CHR ''-''"
    using string_of_nat_hd_digit is_digit_not_minus by blast
  obtain c r where cr: "string_of_nat (nat i) = c # r"
    using string_of_nat_nonempty by (cases "string_of_nat (nat i)") auto
  with h have "c \<noteq> CHR ''-''" by simp
  then have "int_of_literal (string_of_nat (nat i)) = int (nat_of_digits (string_of_nat (nat i)))"
    by (simp add: int_of_literal_def cr)
  with False show ?thesis
    by (simp add: string_of_int_def nat_of_digits_string_of_nat)
qed

lemma is_digit_number_char: "is_digit c \<Longrightarrow> is_number_char c"
  by (simp add: is_number_char_def)

lemma string_of_int_number_chars: "list_all is_number_char (string_of_int i)"
proof -
  have "list_all is_number_char (string_of_nat n)" for n
    using string_of_nat_digits [of n] by (auto simp: list_all_iff is_digit_number_char)
  then show ?thesis by (simp add: string_of_int_def is_number_char_def)
qed

text \<open>A text continues no number when it is empty or starts with another character.\<close>

lemma takeWhile_number_token:
  assumes "list_all is_number_char tok" and "rest = [] \<or> \<not> is_number_char (hd rest)"
  shows "takeWhile is_number_char (tok @ rest) = tok"
    and "dropWhile is_number_char (tok @ rest) = rest"
proof -
  from assms(2) have t: "takeWhile is_number_char rest = []"
    by (cases rest) auto
  from assms(2) have d: "dropWhile is_number_char rest = rest"
    by (cases rest) auto
  from assms(1) have a: "\<forall>x \<in> set tok. is_number_char x" by (simp add: list_all_iff)
  show "takeWhile is_number_char (tok @ rest) = tok"
    using a t by (simp add: takeWhile_append2)
  show "dropWhile is_number_char (tok @ rest) = rest"
    using a d by (simp add: dropWhile_append2)
qed

section \<open>Strings read back\<close>

lemma of_char_less_256: "(of_char c :: nat) < 256"
proof -
  have "(of_char c :: nat) mod 256 = of_char c" by (rule of_char_mod_256)
  moreover have "(of_char c :: nat) mod 256 < 256" by simp
  ultimately show ?thesis by simp
qed

lemma hex_value_hex_char: "d < 16 \<Longrightarrow> hex_value (hex_char d) = Some d"
  by (auto simp: hex_value_def hex_char_def Let_def)

lemma hex4_two_digits:
  assumes "n < 256"
  shows "hex4 (CHR ''0'') (CHR ''0'') (hex_char (n div 16)) (hex_char (n mod 16)) = Some n"
proof -
  have z: "hex_value (CHR ''0'') = Some 0" by (simp add: hex_value_def)
  from assms have "n div 16 < 16" by simp
  then have a: "hex_value (hex_char (n div 16)) = Some (n div 16)" by (rule hex_value_hex_char)
  have b: "hex_value (hex_char (n mod 16)) = Some (n mod 16)" by (rule hex_value_hex_char) simp
  show ?thesis by (simp add: hex4_def z a b)
qed

lemma parse_string_quote: "parse_string (CHR 0x22 # rest) = Some ([], rest)"
  by (cases rest) simp_all

lemma parse_string_plain:
  assumes "c \<noteq> CHR 0x22" and "c \<noteq> CHR 0x5C" and "\<not> (of_char c :: nat) < 32" and "tail \<noteq> []"
  shows "parse_string (c # tail) = cons_result c (parse_string tail)"
  using assms by (cases tail) simp_all

lemma parse_string_simple_escape:
  assumes "unescape e = Some ch" and "e \<noteq> CHR ''u''"
  shows "parse_string (CHR 0x5C # e # tail) = cons_result ch (parse_string tail)"
  using assms by simp

lemma parse_string_unicode_escape:
  assumes "hex4 a b x y = Some n" and "n < 256"
  shows "parse_string (CHR 0x5C # CHR ''u'' # a # b # x # y # tail)
         = cons_result (char_of n) (parse_string tail)"
  using assms by simp

lemma char_of_codes:
  "char_of (34::nat) = CHR 0x22" "char_of (92::nat) = CHR 0x5C" "char_of (10::nat) = CHR 0x0A"
  "char_of (13::nat) = CHR 0x0D" "char_of (9::nat) = CHR 0x09" "char_of (12::nat) = CHR 0x0C"
  "char_of (8::nat) = CHR 0x08"
  by code_simp+

lemma parse_string_escape:
  assumes "tail \<noteq> []"
  shows "parse_string (escape_char c @ tail) = cons_result c (parse_string tail)"
proof -
  let ?n = "of_char c :: nat"
  have c: "char_of ?n = c" by simp
  have q: "?n = k \<Longrightarrow> c = char_of k" for k using c by auto
  consider (dq) "?n = 34" | (bs) "?n = 92" | (nl) "?n = 10" | (cr) "?n = 13" | (tab) "?n = 9"
    | (ff) "?n = 12" | (bsp) "?n = 8"
    | (plain) "?n \<noteq> 34" "?n \<noteq> 92" "32 \<le> ?n" "?n \<le> 126"
    | (uni) "?n \<noteq> 34" "?n \<noteq> 92" "?n \<noteq> 10" "?n \<noteq> 13" "?n \<noteq> 9" "?n \<noteq> 12" "?n \<noteq> 8"
        "\<not> (32 \<le> ?n \<and> ?n \<le> 126)"
    by linarith
  then show ?thesis
  proof cases
    case dq
    then have "c = CHR 0x22" using q [of 34] by (simp add: char_of_codes)
    then show ?thesis by (simp add: escape_char_def unescape_def)
  next
    case bs
    then have "c = CHR 0x5C" using q [of 92] by (simp add: char_of_codes)
    then show ?thesis by (simp add: escape_char_def unescape_def)
  next
    case nl
    then have "c = CHR 0x0A" using q [of 10] by (simp add: char_of_codes)
    then show ?thesis by (simp add: escape_char_def unescape_def)
  next
    case cr
    then have "c = CHR 0x0D" using q [of 13] by (simp add: char_of_codes)
    then show ?thesis by (simp add: escape_char_def unescape_def)
  next
    case tab
    then have "c = CHR 0x09" using q [of 9] by (simp add: char_of_codes)
    then show ?thesis by (simp add: escape_char_def unescape_def)
  next
    case ff
    then have "c = CHR 0x0C" using q [of 12] by (simp add: char_of_codes)
    then show ?thesis by (simp add: escape_char_def unescape_def)
  next
    case bsp
    then have "c = CHR 0x08" using q [of 8] by (simp add: char_of_codes)
    then show ?thesis by (simp add: escape_char_def unescape_def)
  next
    case plain
    have e: "escape_char c = [c]"
      using plain by (simp add: escape_char_def Let_def)
    have "c \<noteq> CHR 0x22" using plain(1) by auto
    moreover have "c \<noteq> CHR 0x5C" using plain(2) by auto
    moreover have "\<not> ?n < 32" using plain(3) by simp
    ultimately show ?thesis
      using assms by (simp add: e parse_string_plain)
  next
    case uni
    have e: "escape_char c = [CHR 0x5C, CHR ''u'', CHR ''0'', CHR ''0'',
                              hex_char (?n div 16), hex_char (?n mod 16)]"
      using uni by (simp add: escape_char_def Let_def)
    have "hex4 (CHR ''0'') (CHR ''0'') (hex_char (?n div 16)) (hex_char (?n mod 16)) = Some ?n"
      using of_char_less_256 by (rule hex4_two_digits)
    then have "parse_string (CHR 0x5C # CHR ''u'' # CHR ''0'' # CHR ''0''
                 # hex_char (?n div 16) # hex_char (?n mod 16) # tail)
               = cons_result (char_of ?n) (parse_string tail)"
      using of_char_less_256 by (rule parse_string_unicode_escape)
    then show ?thesis by (simp add: e)
  qed
qed

lemma parse_string_escaped:
  "parse_string (concat (map escape_char s) @ CHR 0x22 # rest) = Some (s, rest)"
proof (induction s)
  case Nil
  then show ?case by (simp add: parse_string_quote)
next
  case (Cons c s)
  have "parse_string (escape_char c @ (concat (map escape_char s) @ CHR 0x22 # rest))
        = cons_result c (parse_string (concat (map escape_char s) @ CHR 0x22 # rest))"
    by (rule parse_string_escape) simp
  then show ?case by (simp add: Cons cons_result_def)
qed

lemma parse_string_encode_str:
  "encode_str s @ rest = CHR 0x22 # t \<Longrightarrow> parse_string t = Some (s, rest)"
  using parse_string_escaped [of s rest] by (simp add: encode_str_def)

section \<open>Scalars read back\<close>

lemma skip_ws_prefix: "list_all is_ws w \<Longrightarrow> skip_ws (w @ s) = skip_ws s"
  by (simp add: skip_ws_def list_all_iff dropWhile_append2)

lemma skip_ws_Cons: "\<not> is_ws c \<Longrightarrow> skip_ws (c # s) = c # s"
  by (simp add: skip_ws_def)

lemma skip_ws_start: "list_all is_ws w \<Longrightarrow> \<not> is_ws c \<Longrightarrow> skip_ws (w @ c # s) = c # s"
  by (simp add: skip_ws_prefix skip_ws_Cons)

lemma newline_indent_ws: "list_all is_ws (newline_indent lvl)"
  by (simp add: newline_indent_def is_ws_def list_all_iff)

lemma newline_indent_nonempty: "newline_indent lvl \<noteq> []"
  by (simp add: newline_indent_def)

lemma is_digit_not_special:
  assumes "is_digit c"
  shows "c \<noteq> CHR ''n''" "c \<noteq> CHR ''t''" "c \<noteq> CHR ''f''" "c \<noteq> CHR ''N''" "c \<noteq> CHR ''I''"
    "c \<noteq> CHR ''{''" "c \<noteq> CHR ''[''" "c \<noteq> CHR 0x22" "c \<noteq> CHR ''-''" "\<not> is_ws c"
    "c \<noteq> CHR ''.''" "c \<noteq> CHR ''e''" "c \<noteq> CHR ''E''"
  using assms by (auto simp: is_digit_def is_ws_def)

lemma is_exponent_number_chars: "is_exponent x \<Longrightarrow> list_all is_number_char x"
  by (auto simp: is_exponent_def is_number_char_def list_all_iff Let_def
      split: list.splits if_splits)

lemma is_fraction_exponent_number_chars:
  assumes "is_fraction_exponent x"
  shows "list_all is_number_char x"
proof (cases x)
  case Nil
  then show ?thesis by simp
next
  case (Cons c r)
  show ?thesis
  proof (cases "c = CHR ''.''")
    case True
    with assms Cons have d: "dropWhile is_digit r = [] \<or> is_exponent (dropWhile is_digit r)"
      by (simp add: is_fraction_exponent_def)
    have a: "list_all is_number_char (takeWhile is_digit r)"
      by (auto simp: list_all_iff is_digit_number_char dest: set_takeWhileD)
    have b: "list_all is_number_char (dropWhile is_digit r)"
    proof (cases "dropWhile is_digit r = []")
      case True
      then show ?thesis by (simp only: list.pred_inject)
    next
      case False
      with d have "is_exponent (dropWhile is_digit r)" by blast
      then show ?thesis by (rule is_exponent_number_chars)
    qed
    have "r = takeWhile is_digit r @ dropWhile is_digit r" by simp
    with a b have "list_all is_number_char r"
      by (metis list_all_append)
    with True Cons show ?thesis by (simp add: is_number_char_def)
  next
    case False
    with assms Cons have "is_exponent x" by (simp add: is_fraction_exponent_def)
    then show ?thesis by (rule is_exponent_number_chars)
  qed
qed

lemma is_fraction_exponent_hd:
  "is_fraction_exponent x \<Longrightarrow> x \<noteq> [] \<and> \<not> is_digit (hd x)"
  by (cases x) (auto simp: is_fraction_exponent_def is_exponent_def is_digit_def
      split: if_splits)

lemma float_literal_parts:
  assumes "is_float_literal r"
  shows "strip_minus r \<noteq> []" and "is_digit (hd (strip_minus r))"
    and "list_all is_number_char r" and "\<not> is_int_literal r"
proof -
  let ?t = "strip_minus r"
  let ?ip = "takeWhile is_digit ?t" and ?fe = "dropWhile is_digit ?t"
  from assms have ip: "is_nat_literal ?ip" and fe: "is_fraction_exponent ?fe"
    by (simp_all add: is_float_literal_def)
  from ip have ne: "?ip \<noteq> []" by (simp add: is_nat_literal_def)
  then show t: "?t \<noteq> []" by auto
  from ne show hd: "is_digit (hd ?t)"
    by (cases ?t) (auto split: if_splits)
  have "list_all is_number_char ?ip"
    by (auto simp: list_all_iff is_digit_number_char dest: set_takeWhileD)
  moreover have "list_all is_number_char ?fe"
    using fe by (rule is_fraction_exponent_number_chars)
  moreover have "?t = ?ip @ ?fe" by simp
  ultimately have nt: "list_all is_number_char ?t"
    by (metis list_all_append)
  show "list_all is_number_char r"
  proof (cases r)
    case Nil
    then show ?thesis by simp
  next
    case (Cons c x)
    with nt show ?thesis
      by (cases "c = CHR ''-''") (simp_all add: strip_minus_def is_number_char_def)
  qed
  from fe have "?fe \<noteq> []" "\<not> is_digit (hd ?fe)"
    using is_fraction_exponent_hd by blast+
  then have "hd ?fe \<in> set ?t" "\<not> is_digit (hd ?fe)"
    by (metis hd_in_set set_dropWhileD, simp)
  then have "\<not> list_all is_digit ?t" by (auto simp: list_all_iff)
  then show "\<not> is_int_literal r"
    by (simp add: is_int_literal_def is_nat_literal_def)
qed

lemma int_literal_parts:
  shows "strip_minus (string_of_int i) \<noteq> []" and "is_digit (hd (strip_minus (string_of_int i)))"
proof -
  have e: "strip_minus (string_of_int i) = string_of_nat (nat (if i < 0 then - i else i))"
  proof (cases "i < 0")
    case True
    then show ?thesis by (simp add: string_of_int_def strip_minus_def)
  next
    case False
    have "hd (string_of_nat (nat i)) \<noteq> CHR ''-''"
      using string_of_nat_hd_digit is_digit_not_minus by blast
    then have "strip_minus (string_of_nat (nat i)) = string_of_nat (nat i)"
      by (cases "string_of_nat (nat i)") (simp_all add: strip_minus_def)
    with False show ?thesis by (simp add: string_of_int_def)
  qed
  show "strip_minus (string_of_int i) \<noteq> []"
    unfolding e by (rule string_of_nat_nonempty)
  show "is_digit (hd (strip_minus (string_of_int i)))"
    unfolding e by (rule string_of_nat_hd_digit)
qed

text \<open>
  A number token: written in number characters, starting with a digit after an
  optional minus sign, and followed by a text that continues no number.
\<close>

lemma number_token_shape:
  assumes "strip_minus tok \<noteq> []" and "is_digit (hd (strip_minus tok))"
  shows "(\<exists>d r. tok = d # r \<and> is_digit d) \<or> (\<exists>d r. tok = CHR ''-'' # d # r \<and> is_digit d)"
proof (cases tok)
  case Nil
  with assms show ?thesis by (simp add: strip_minus_def)
next
  case (Cons c x)
  show ?thesis
  proof (cases "c = CHR ''-''")
    case True
    with Cons assms obtain d r where "x = d # r" "is_digit d"
      by (cases x) (auto simp: strip_minus_def)
    with True Cons show ?thesis by simp
  next
    case False
    with Cons assms have "is_digit c" by (simp add: strip_minus_def)
    with Cons show ?thesis by simp
  qed
qed

lemma digit_start_no_literal:
  assumes "is_digit d"
  shows "\<not> is_prefix ''null'' (d # x)" "\<not> is_prefix ''true'' (d # x)"
    "\<not> is_prefix ''false'' (d # x)" "\<not> is_prefix ''NaN'' (d # x)"
    "\<not> is_prefix ''Infinity'' (d # x)" "\<not> is_prefix ''-Infinity'' (d # x)"
  using assms by (auto simp: is_digit_def)

lemma minus_digit_start_no_literal:
  assumes "is_digit d"
  shows "\<not> is_prefix ''null'' (CHR ''-'' # d # x)" "\<not> is_prefix ''true'' (CHR ''-'' # d # x)"
    "\<not> is_prefix ''false'' (CHR ''-'' # d # x)" "\<not> is_prefix ''NaN'' (CHR ''-'' # d # x)"
    "\<not> is_prefix ''Infinity'' (CHR ''-'' # d # x)"
    "\<not> is_prefix ''-Infinity'' (CHR ''-'' # d # x)"
  using assms by (auto simp: is_digit_def)

lemma number_token_no_literal:
  assumes "strip_minus tok \<noteq> []" and "is_digit (hd (strip_minus tok))"
  shows "\<not> is_prefix ''null'' (tok @ rest) \<and> \<not> is_prefix ''true'' (tok @ rest)
    \<and> \<not> is_prefix ''false'' (tok @ rest) \<and> \<not> is_prefix ''NaN'' (tok @ rest)
    \<and> \<not> is_prefix ''Infinity'' (tok @ rest) \<and> \<not> is_prefix ''-Infinity'' (tok @ rest)"
proof -
  from number_token_shape [OF assms] show ?thesis
  proof (elim disjE exE conjE)
    fix d r
    assume t: "tok = d # r" and d: "is_digit d"
    have e: "tok @ rest = d # (r @ rest)" by (simp add: t)
    show ?thesis unfolding e using digit_start_no_literal [OF d] by blast
  next
    fix d r
    assume t: "tok = CHR ''-'' # d # r" and d: "is_digit d"
    have e: "tok @ rest = CHR ''-'' # d # (r @ rest)" by (simp add: t)
    show ?thesis unfolding e using minus_digit_start_no_literal [OF d] by blast
  qed
qed

lemma parse_literal_number:
  assumes "list_all is_number_char tok" and "rest = [] \<or> \<not> is_number_char (hd rest)"
    and "strip_minus tok \<noteq> []" and "is_digit (hd (strip_minus tok))"
  shows "parse_literal (tok @ rest) =
           (if is_int_literal tok then Some (NScalar (SInt (int_of_literal tok)), rest)
            else if is_float_literal tok then Some (NScalar (SFloat (FFinite tok)), rest)
            else None)"
proof -
  have tk: "takeWhile is_number_char (tok @ rest) = tok"
    and dr: "dropWhile is_number_char (tok @ rest) = rest"
    using takeWhile_number_token [OF assms(1,2)] by simp_all
  note np = number_token_no_literal [OF assms(3,4), of rest]
  have "parse_literal (tok @ rest) =
          (let tok' = takeWhile is_number_char (tok @ rest);
               r = dropWhile is_number_char (tok @ rest)
           in if is_int_literal tok' then Some (NScalar (SInt (int_of_literal tok')), r)
              else if is_float_literal tok' then Some (NScalar (SFloat (FFinite tok')), r)
              else None)"
    unfolding parse_literal_def using np by (simp only: if_False)
  then show ?thesis by (simp only: tk dr Let_def)
qed

lemma number_token_dispatch:
  assumes "strip_minus tok \<noteq> []" and "is_digit (hd (strip_minus tok))"
  shows "tok \<noteq> []" and "\<not> is_ws (hd tok)" and "hd tok \<noteq> CHR ''{''" and "hd tok \<noteq> CHR ''[''"
    and "hd tok \<noteq> CHR 0x22"
proof -
  from number_token_shape [OF assms]
  have "tok \<noteq> [] \<and> (is_digit (hd tok) \<or> hd tok = CHR ''-'')"
    by auto
  then show "tok \<noteq> []" and "\<not> is_ws (hd tok)" and "hd tok \<noteq> CHR ''{''"
    and "hd tok \<noteq> CHR ''[''" and "hd tok \<noteq> CHR 0x22"
    by (auto simp: is_digit_def is_ws_def)
qed

lemma parse_value_literal:
  assumes "list_all is_ws w" and "s \<noteq> []" and "\<not> is_ws (hd s)" and "hd s \<noteq> CHR ''{''"
    and "hd s \<noteq> CHR ''[''" and "hd s \<noteq> CHR 0x22"
  shows "parse_value (Suc n) (w @ s @ rest) = parse_literal (s @ rest)"
proof -
  from assms(2) obtain c r where s: "s = c # r" by (cases s) auto
  with assms have "skip_ws (w @ s @ rest) = c # r @ rest"
    by (simp add: skip_ws_start)
  with assms s show ?thesis by simp
qed

lemma parse_value_scalar:
  assumes "json_representable_scalar sc" and "encode_scalar DefaultStr sc = Inr s"
    and "list_all is_ws w" and "rest = [] \<or> \<not> is_number_char (hd rest)"
  shows "parse_value (Suc n) (w @ s @ rest) = Some (NScalar sc, rest)"
proof (cases sc)
  case SNone
  with assms have s: "s = ''null''" by simp
  have "parse_value (Suc n) (w @ s @ rest) = parse_literal (s @ rest)"
    using assms(3) by (intro parse_value_literal) (simp_all add: s is_ws_def)
  then show ?thesis by (simp add: s SNone parse_literal_def)
next
  case (SBool b)
  with assms have s: "s = (if b then ''true'' else ''false'')" by simp
  have "parse_value (Suc n) (w @ s @ rest) = parse_literal (s @ rest)"
    using assms(3) by (intro parse_value_literal) (simp_all add: s is_ws_def)
  then show ?thesis by (simp add: s SBool parse_literal_def)
next
  case (SInt i)
  with assms have s: "s = string_of_int i" by simp
  note st = int_literal_parts [of i]
  have "parse_value (Suc n) (w @ s @ rest) = parse_literal (s @ rest)"
    using assms(3) number_token_dispatch [OF st]
    by (intro parse_value_literal) (simp_all add: s)
  also have "\<dots> = Some (NScalar (SInt i), rest)"
    using parse_literal_number [OF string_of_int_number_chars assms(4) st]
    by (simp add: s is_int_literal_string_of_int int_of_literal_string_of_int)
  finally show ?thesis by (simp add: SInt)
next
  case (SFloat f)
  with assms obtain r where f: "f = FFinite r" and lit: "is_float_literal r"
    by (cases f) auto
  with assms SFloat have s: "s = r" by simp
  note fp = float_literal_parts [OF lit]
  have "parse_value (Suc n) (w @ s @ rest) = parse_literal (s @ rest)"
    using assms(3) number_token_dispatch [OF fp(1,2)]
    by (intro parse_value_literal) (simp_all add: s)
  also have "\<dots> = Some (NScalar (SFloat (FFinite r)), rest)"
    using parse_literal_number [OF fp(3) assms(4) fp(1,2)] fp(4) lit
    by (simp add: s)
  finally show ?thesis by (simp add: SFloat f)
next
  case (SStr str)
  with assms have s: "s = encode_str str" by simp
  have e: "encode_str str @ rest = CHR 0x22 # (concat (map escape_char str) @ CHR 0x22 # rest)"
    by (simp add: encode_str_def)
  then have p: "parse_string (concat (map escape_char str) @ CHR 0x22 # rest) = Some (str, rest)"
    by (rule parse_string_encode_str)
  have "skip_ws (w @ s @ rest) = CHR 0x22 # (concat (map escape_char str) @ CHR 0x22 # rest)"
    using assms(3) by (simp add: s encode_str_def skip_ws_start is_ws_def)
  then show ?thesis by (simp add: p SStr)
next
  case (SObj cls na str)
  with assms show ?thesis by simp
qed

section \<open>Arrays and objects read back\<close>

lemma encode_elems_Cons:
  assumes "encode_elems d lvl (x # xs) = Inr chunks"
  obtains c cs where "chunks = c # cs" "encode d lvl x = Inr c" "encode_elems d lvl xs = Inr cs"
  using assms by (auto split: sum.splits)

lemma encode_items_Cons:
  assumes "encode_items d lvl ((k, v) # kvs) = Inr chunks"
  obtains ks c cs where "chunks = (encode_str ks @ '': '' @ c) # cs" "encode_key k = Inr ks"
    "encode d lvl v = Inr c" "encode_items d lvl kvs = Inr cs"
  using assms by (auto split: sum.splits)

lemma encode_elems_Cons_Cons:
  assumes "encode_elems d lvl (x # xs) = Inr cs"
  shows "cs \<noteq> []"
  using assms by (auto split: sum.splits)

lemma encode_items_Cons_Cons:
  assumes "encode_items d lvl (kv # kvs) = Inr cs"
  shows "cs \<noteq> []"
  using assms by (cases kv) (auto split: sum.splits)

lemma join_with_single: "join_with sep [c] = c"
  by simp

lemma join_with_more: "join_with sep (c # c2 # cs) = c @ sep @ join_with sep (c2 # cs)"
  by simp

lemma ws_not_number_char: "is_ws c \<Longrightarrow> \<not> is_number_char c"
  by (auto simp: is_ws_def is_number_char_def is_digit_def)

lemma closing_continues_no_number:
  assumes "list_all is_ws cl" and "\<not> is_number_char b"
  shows "cl @ b # rest = [] \<or> \<not> is_number_char (hd (cl @ b # rest))"
  using assms by (cases cl) (auto simp: ws_not_number_char)

lemma bracket_chars:
  "\<not> is_number_char (CHR '']'')" "\<not> is_number_char (CHR ''}'')" "\<not> is_number_char (CHR '','')"
  "\<not> is_ws (CHR '']'')" "\<not> is_ws (CHR ''}'')" "\<not> is_ws (CHR '','')" "\<not> is_ws (CHR ''['')"
  "\<not> is_ws (CHR ''{'')" "\<not> is_ws (CHR 0x22)" "\<not> is_ws (CHR '':'')" "is_ws (CHR '' '')"
  by (simp_all add: is_number_char_def is_digit_def is_ws_def)

lemma parse_value_empty_list:
  assumes "list_all is_ws w"
  shows "parse_value (Suc n) (w @ ''[]'' @ rest) = Some (NList [], rest)"
proof -
  have "skip_ws (w @ ''[]'' @ rest) = CHR ''['' # CHR '']'' # rest"
    using assms by (simp add: skip_ws_start bracket_chars)
  moreover have "skip_ws (CHR '']'' # rest) = CHR '']'' # rest"
    by (simp add: skip_ws_Cons bracket_chars)
  ultimately show ?thesis by simp
qed

lemma parse_value_empty_dict:
  assumes "list_all is_ws w"
  shows "parse_value (Suc n) (w @ ''{}'' @ rest) = Some (NDict [], rest)"
proof -
  have "skip_ws (w @ ''{}'' @ rest) = CHR ''{'' # CHR ''}'' # rest"
    using assms by (simp add: skip_ws_start bracket_chars)
  moreover have "skip_ws (CHR ''}'' # rest) = CHR ''}'' # rest"
    by (simp add: skip_ws_Cons bracket_chars)
  ultimately show ?thesis by simp
qed

lemma parse_value_list:
  assumes "list_all is_ws w" and "list_all is_ws w1"
    and "body \<noteq> []" and "\<not> is_ws (hd body)" and "hd body \<noteq> CHR '']''"
    and "parse_elems n (w1 @ body @ tail) = Some (xs, rest)"
  shows "parse_value (Suc n) (w @ CHR ''['' # w1 @ body @ tail) = Some (NList xs, rest)"
proof -
  from assms(3) obtain b bs where b: "body = b # bs" by (cases body) auto
  have s1: "skip_ws (w @ CHR ''['' # w1 @ body @ tail) = CHR ''['' # w1 @ body @ tail"
    using assms(1) by (simp add: skip_ws_start bracket_chars)
  have s2: "skip_ws (w1 @ body @ tail) = b # bs @ tail"
    using assms(2,4) by (simp add: b skip_ws_start)
  from assms(5) have nb: "b \<noteq> CHR '']''" by (simp add: b)
  show ?thesis
    using assms(6) nb by (simp add: s1 s2)
qed

lemma parse_value_dict:
  assumes "list_all is_ws w" and "list_all is_ws w1"
    and "body \<noteq> []" and "\<not> is_ws (hd body)" and "hd body \<noteq> CHR ''}''"
    and "parse_members n (w1 @ body @ tail) = Some (kvs, rest)"
  shows "parse_value (Suc n) (w @ CHR ''{'' # w1 @ body @ tail) = Some (NDict (dict_of kvs), rest)"
proof -
  from assms(3) obtain b bs where b: "body = b # bs" by (cases body) auto
  have s1: "skip_ws (w @ CHR ''{'' # w1 @ body @ tail) = CHR ''{'' # w1 @ body @ tail"
    using assms(1) by (simp add: skip_ws_start bracket_chars)
  have s2: "skip_ws (w1 @ body @ tail) = b # bs @ tail"
    using assms(2,4) by (simp add: b skip_ws_start)
  from assms(5) have nb: "b \<noteq> CHR ''}''" by (simp add: b)
  show ?thesis
    using assms(6) nb by (simp add: s1 s2)
qed

lemma parse_elems_last:
  assumes "parse_value m s = Some (x, cl @ CHR '']'' # rest)" and "list_all is_ws cl"
  shows "parse_elems (Suc m) s = Some ([x], rest)"
proof -
  have "skip_ws (cl @ CHR '']'' # rest) = CHR '']'' # rest"
    using assms(2) by (simp add: skip_ws_start bracket_chars)
  with assms(1) show ?thesis by simp
qed

lemma parse_elems_more:
  assumes "parse_value m s = Some (x, CHR '','' # tail)"
    and "parse_elems m tail = Some (xs, rest)"
  shows "parse_elems (Suc m) s = Some (x # xs, rest)"
proof -
  have "skip_ws (CHR '','' # tail) = CHR '','' # tail"
    by (simp add: skip_ws_Cons bracket_chars)
  with assms show ?thesis by simp
qed

lemma parse_members_key:
  assumes "list_all is_ws w"
  shows "parse_members (Suc m) (w @ encode_str ks @ '': '' @ t) =
           (case parse_value m (CHR '' '' # t) of
              None \<Rightarrow> None
            | Some (v, r3) \<Rightarrow>
                (case skip_ws r3 of
                   [] \<Rightarrow> None
                 | c' # r4 \<Rightarrow>
                     if c' = CHR '','' then
                       (case parse_members m r4 of
                          None \<Rightarrow> None
                        | Some (kvs, rest) \<Rightarrow> Some ((KStr ks, v) # kvs, rest))
                     else if c' = CHR ''}'' then Some ([(KStr ks, v)], r4)
                     else None))"
proof -
  let ?t = "CHR '':'' # CHR '' '' # t"
  let ?r = "concat (map escape_char ks) @ CHR 0x22 # ?t"
  have e: "w @ encode_str ks @ '': '' @ t = w @ CHR 0x22 # ?r"
    by (simp add: encode_str_def)
  have s1: "skip_ws (w @ CHR 0x22 # ?r) = CHR 0x22 # ?r"
    using assms by (simp add: skip_ws_start bracket_chars)
  have p: "parse_string ?r = Some (ks, ?t)"
    by (rule parse_string_escaped)
  have s2: "skip_ws ?t = ?t"
    by (simp add: skip_ws_Cons bracket_chars)
  have "parse_members (Suc m) (w @ CHR 0x22 # ?r) =
           (case parse_value m (CHR '' '' # t) of
              None \<Rightarrow> None
            | Some (v, r3) \<Rightarrow>
                (case skip_ws r3 of
                   [] \<Rightarrow> None
                 | c' # r4 \<Rightarrow>
                     if c' = CHR '','' then
                       (case parse_members m r4 of
                          None \<Rightarrow> None
                        | Some (kvs, rest) \<Rightarrow> Some ((KStr ks, v) # kvs, rest))
                     else if c' = CHR ''}'' then Some ([(KStr ks, v)], r4)
                     else None))"
    by (simp only: parse_members.simps s1 p s2 list.case option.case prod.case
        if_False if_True not_False_eq_True simp_thms)
  then show ?thesis by (simp only: e)
qed

lemma parse_members_last:
  assumes "list_all is_ws w" and "list_all is_ws cl"
    and "parse_value m (CHR '' '' # t) = Some (v, cl @ CHR ''}'' # rest)"
  shows "parse_members (Suc m) (w @ encode_str ks @ '': '' @ t) = Some ([(KStr ks, v)], rest)"
proof -
  have "skip_ws (cl @ CHR ''}'' # rest) = CHR ''}'' # rest"
    using assms(2) by (simp add: skip_ws_start bracket_chars)
  then show ?thesis
    unfolding parse_members_key [OF assms(1)] by (simp add: assms(3))
qed

lemma parse_members_more:
  assumes "list_all is_ws w"
    and "parse_value m (CHR '' '' # t) = Some (v, CHR '','' # tail)"
    and "parse_members m tail = Some (kvs, rest)"
  shows "parse_members (Suc m) (w @ encode_str ks @ '': '' @ t) = Some ((KStr ks, v) # kvs, rest)"
proof -
  have "skip_ws (CHR '','' # tail) = CHR '','' # tail"
    by (simp add: skip_ws_Cons bracket_chars)
  then show ?thesis
    unfolding parse_members_key [OF assms(1)] by (simp add: assms(2,3))
qed

text \<open>The text of a representable value is not empty and starts with its own mark.\<close>

lemma encode_scalar_hd:
  assumes "json_representable_scalar sc" and "encode_scalar DefaultStr sc = Inr s"
  shows "s \<noteq> [] \<and> \<not> is_ws (hd s) \<and> hd s \<noteq> CHR '']''"
proof (cases sc)
  case (SInt i)
  with assms have s: "s = string_of_int i" by simp
  from number_token_shape [OF int_literal_parts [of i]]
  have "s \<noteq> [] \<and> (is_digit (hd s) \<or> hd s = CHR ''-'')" by (auto simp: s)
  then show ?thesis by (auto simp: is_digit_def is_ws_def)
next
  case (SFloat f)
  with assms obtain r where f: "f = FFinite r" and lit: "is_float_literal r"
    by (cases f) auto
  with assms SFloat have s: "s = r" by simp
  from number_token_shape [OF float_literal_parts(1,2) [OF lit]]
  have "s \<noteq> [] \<and> (is_digit (hd s) \<or> hd s = CHR ''-'')" by (auto simp: s)
  then show ?thesis by (auto simp: is_digit_def is_ws_def)
qed (use assms in \<open>auto simp: is_ws_def encode_str_def split: if_splits\<close>)

lemma encode_hd:
  assumes "json_representable v" and "encode DefaultStr lvl v = Inr s"
  shows "s \<noteq> [] \<and> \<not> is_ws (hd s) \<and> hd s \<noteq> CHR '']''"
proof (cases v)
  case (NScalar sc)
  with assms show ?thesis using encode_scalar_hd by simp
next
  case (NList xs)
  with assms show ?thesis
    by (cases xs) (auto simp: is_ws_def split: sum.splits)
next
  case (NDict kvs)
  with assms show ?thesis
    by (cases kvs) (auto simp: is_ws_def split: sum.splits)
qed

lemma encode_str_hd:
  "encode_str ks @ t \<noteq> [] \<and> \<not> is_ws (hd (encode_str ks @ t)) \<and> hd (encode_str ks @ t) \<noteq> CHR ''}''"
  by (simp add: encode_str_def is_ws_def)

lemma json_representable_items_keys:
  "json_representable_items kvs \<Longrightarrow> \<forall>kv \<in> set kvs. is_KStr (fst kv)"
  by (induction kvs) fastforce+

section \<open>The round trip of the rendered text\<close>

lemma newline_indent_length: "0 < length (newline_indent lvl)"
  by (simp add: newline_indent_def)

lemma join_with_hd: "c \<noteq> [] \<Longrightarrow> join_with sep (c # cs) \<noteq> [] \<and> hd (join_with sep (c # cs)) = hd c"
  by simp

lemma join_with_length_first: "length c \<le> length (join_with sep (c # cs))"
  by simp

lemma join_with_length_more:
  "length (join_with sep (c # c2 # cs))
   = length c + length sep + length (join_with sep (c2 # cs))"
  by simp

text \<open>
  The text of a representable value, after any whitespace and before a text that
  continues no number, is read back as the value, with a bound that the length of the
  text meets; likewise the elements of a list before the closing bracket and the
  members of a dict before the closing brace.
\<close>

lemma parse_encode:
  "json_representable v \<Longrightarrow> encode DefaultStr lvl v = Inr s \<Longrightarrow> length s \<le> n
   \<Longrightarrow> list_all is_ws w \<Longrightarrow> rest = [] \<or> \<not> is_number_char (hd rest)
   \<Longrightarrow> parse_value n (w @ s @ rest) = Some (v, rest)"
  "json_representable_list xs \<Longrightarrow> xs \<noteq> [] \<Longrightarrow> encode_elems DefaultStr lvl xs = Inr chunks
   \<Longrightarrow> length (join_with (CHR '','' # newline_indent lvl) chunks) < n
   \<Longrightarrow> list_all is_ws w \<Longrightarrow> list_all is_ws cl
   \<Longrightarrow> parse_elems n (w @ join_with (CHR '','' # newline_indent lvl) chunks
                          @ cl @ CHR '']'' # rest) = Some (xs, rest)"
  "json_representable_items kvs \<Longrightarrow> kvs \<noteq> [] \<Longrightarrow> encode_items DefaultStr lvl kvs = Inr chunks
   \<Longrightarrow> length (join_with (CHR '','' # newline_indent lvl) chunks) < n
   \<Longrightarrow> list_all is_ws w \<Longrightarrow> list_all is_ws cl
   \<Longrightarrow> parse_members n (w @ join_with (CHR '','' # newline_indent lvl) chunks
                            @ cl @ CHR ''}'' # rest) = Some (kvs, rest)"
proof (induction v and xs and kvs
    arbitrary: lvl s n w rest and lvl chunks n w cl rest and lvl chunks n w cl rest
    rule: raw_raw_list_raw_items.induct)
  case (1 sc)
  from 1(1,2) have h: "json_representable_scalar sc" "encode_scalar DefaultStr sc = Inr s"
    by simp_all
  then have "s \<noteq> []" using encode_scalar_hd by blast
  with 1(3) obtain m where n: "n = Suc m" by (cases n) auto
  show ?case
    unfolding n using h 1(4,5) by (rule parse_value_scalar)
next
  case (2 xs)
  show ?case
  proof (cases xs)
    case Nil
    with 2(3) have s: "s = ''[]''" by simp
    with 2(4) obtain m where n: "n = Suc m" by (cases n) auto
    show ?thesis
      unfolding n s Nil using 2(5) by (rule parse_value_empty_list)
  next
    case (Cons x xs')
    let ?sep = "CHR '','' # newline_indent (Suc lvl)"
    from 2(3) Cons obtain chunks where
      ch: "encode_elems DefaultStr (Suc lvl) xs = Inr chunks"
      and s: "s = ''['' @ newline_indent (Suc lvl) @ join_with ?sep chunks
                  @ newline_indent lvl @ '']''"
      by (auto split: sum.splits)
    from ch have "encode_elems DefaultStr (Suc lvl) (x # xs') = Inr chunks"
      unfolding Cons .
    then obtain c cs where c: "chunks = c # cs" "encode DefaultStr (Suc lvl) x = Inr c"
      "encode_elems DefaultStr (Suc lvl) xs' = Inr cs"
      by (rule encode_elems_Cons)
    from 2(2) Cons have rx: "json_representable x" and rl: "json_representable_list xs"
      by simp_all
    from encode_hd [OF rx c(2)] have hc: "c \<noteq> []" "\<not> is_ws (hd c)" "hd c \<noteq> CHR '']''"
      by simp_all
    let ?body = "join_with ?sep chunks"
    have hb: "?body \<noteq> []" "\<not> is_ws (hd ?body)" "hd ?body \<noteq> CHR '']''"
      using hc by (simp_all add: c(1))
    have ls: "length s = length ?body + length (newline_indent (Suc lvl))
                + length (newline_indent lvl) + 2"
      by (simp add: s)
    with 2(4) newline_indent_length [of "Suc lvl"] newline_indent_length [of lvl]
    obtain m where n: "n = Suc m" and lb: "length ?body < m"
      by (cases n) auto
    have ne: "xs \<noteq> []" by (simp add: Cons)
    have pe: "parse_elems m (newline_indent (Suc lvl) @ ?body
                @ newline_indent lvl @ CHR '']'' # rest) = Some (xs, rest)"
      using rl ne ch lb newline_indent_ws newline_indent_ws by (rule 2(1))
    have "parse_value (Suc m) (w @ CHR ''['' # newline_indent (Suc lvl) @ ?body
             @ (newline_indent lvl @ CHR '']'' # rest)) = Some (NList xs, rest)"
      using 2(5) newline_indent_ws hb pe by (rule parse_value_list)
    then show ?thesis by (simp add: n s)
  qed
next
  case (3 kvs)
  from 3(2) have dk: "distinct (map fst kvs)" and ri: "json_representable_items kvs"
    by simp_all
  show ?case
  proof (cases kvs)
    case Nil
    with 3(3) have s: "s = ''{}''" by simp
    with 3(4) obtain m where n: "n = Suc m" by (cases n) auto
    show ?thesis
      unfolding n s Nil using 3(5) by (rule parse_value_empty_dict)
  next
    case (Cons kv kvs')
    let ?sep = "CHR '','' # newline_indent (Suc lvl)"
    from 3(3) Cons obtain chunks where
      ch: "encode_items DefaultStr (Suc lvl) kvs = Inr chunks"
      and s: "s = ''{'' @ newline_indent (Suc lvl) @ join_with ?sep chunks
                  @ newline_indent lvl @ ''}''"
      by (auto split: sum.splits)
    obtain k v where kv: "kv = (k, v)" by (cases kv)
    from ch have "encode_items DefaultStr (Suc lvl) ((k, v) # kvs') = Inr chunks"
      unfolding Cons kv .
    then obtain ks c cs where c: "chunks = (encode_str ks @ '': '' @ c) # cs"
      "encode_key k = Inr ks" "encode DefaultStr (Suc lvl) v = Inr c"
      "encode_items DefaultStr (Suc lvl) kvs' = Inr cs"
      by (rule encode_items_Cons)
    let ?body = "join_with ?sep chunks"
    obtain t where b: "?body = encode_str ks @ t"
      by (simp add: c(1))
    have hb: "?body \<noteq> []" "\<not> is_ws (hd ?body)" "hd ?body \<noteq> CHR ''}''"
      unfolding b using encode_str_hd by blast+
    have ls: "length s = length ?body + length (newline_indent (Suc lvl))
                + length (newline_indent lvl) + 2"
      by (simp add: s)
    with 3(4) newline_indent_length [of "Suc lvl"] newline_indent_length [of lvl]
    obtain m where n: "n = Suc m" and lb: "length ?body < m"
      by (cases n) auto
    have ne: "kvs \<noteq> []" by (simp add: Cons)
    have pm: "parse_members m (newline_indent (Suc lvl) @ ?body
                @ newline_indent lvl @ CHR ''}'' # rest) = Some (kvs, rest)"
      using ri ne ch lb newline_indent_ws newline_indent_ws by (rule 3(1))
    have "parse_value (Suc m) (w @ CHR ''{'' # newline_indent (Suc lvl) @ ?body
             @ (newline_indent lvl @ CHR ''}'' # rest)) = Some (NDict (dict_of kvs), rest)"
      using 3(5) newline_indent_ws hb pm by (rule parse_value_dict)
    moreover have "dict_of kvs = kvs"
      using dk json_representable_items_keys [OF ri] by (rule dict_of_distinct)
    ultimately show ?thesis by (simp add: n s)
  qed
next
  case 4
  then show ?case by simp
next
  case (5 x xs)
  let ?sep = "CHR '','' # newline_indent lvl"
  from 5(3) have rx: "json_representable x" and rl: "json_representable_list xs"
    by simp_all
  from 5(5) obtain c cs where c: "chunks = c # cs" "encode DefaultStr lvl x = Inr c"
    "encode_elems DefaultStr lvl xs = Inr cs"
    by (rule encode_elems_Cons)
  from encode_hd [OF rx c(2)] have hc: "c \<noteq> []" by simp
  from 5(6) obtain m where n: "n = Suc m" by (cases n) auto
  have lc: "length c \<le> m"
    using 5(6) join_with_length_first [of c ?sep cs] by (simp add: c(1) n)
  show ?case
  proof (cases xs)
    case Nil
    with c(3) have cs: "cs = []" by simp
    have d: "cl @ CHR '']'' # rest = [] \<or> \<not> is_number_char (hd (cl @ CHR '']'' # rest))"
      using 5(8) bracket_chars(1) by (rule closing_continues_no_number)
    have "parse_value m (w @ c @ (cl @ CHR '']'' # rest)) = Some (x, cl @ CHR '']'' # rest)"
      using rx c(2) lc 5(7) d by (rule 5(1))
    then have "parse_elems (Suc m) (w @ c @ (cl @ CHR '']'' # rest)) = Some ([x], rest)"
      using 5(8) by (rule parse_elems_last)
    then show ?thesis by (simp add: n c(1) cs Nil)
  next
    case (Cons x2 xs')
    from c(3) have "cs \<noteq> []"
      unfolding Cons by (rule encode_elems_Cons_Cons)
    then obtain c2 cs' where cs: "cs = c2 # cs'" by (cases cs) auto
    let ?tail = "newline_indent lvl @ join_with ?sep cs @ cl @ CHR '']'' # rest"
    have ne: "xs \<noteq> []" by (simp add: Cons)
    have "length (join_with ?sep chunks) = length c + length ?sep + length (join_with ?sep cs)"
      unfolding c(1) cs by (rule join_with_length_more)
    with 5(6) hc have lt: "length (join_with ?sep cs) < m"
      by (cases c) (auto simp: n)
    have d: "CHR '','' # ?tail = [] \<or> \<not> is_number_char (hd (CHR '','' # ?tail))"
      by (simp add: bracket_chars)
    have pv: "parse_value m (w @ c @ (CHR '','' # ?tail)) = Some (x, CHR '','' # ?tail)"
      using rx c(2) lc 5(7) d by (rule 5(1))
    have pe: "parse_elems m ?tail = Some (xs, rest)"
      using rl ne c(3) lt newline_indent_ws 5(8) by (rule 5(2))
    have "parse_elems (Suc m) (w @ c @ (CHR '','' # ?tail)) = Some (x # xs, rest)"
      using pv pe by (rule parse_elems_more)
    then show ?thesis by (simp add: n c(1) cs)
  qed
next
  case 6
  then show ?case by simp
next
  case (7 k v kvs)
  let ?sep = "CHR '','' # newline_indent lvl"
  from 7(3) have kk: "is_KStr k" and rv: "json_representable v"
    and ri: "json_representable_items kvs"
    by simp_all
  from kk obtain ks where k: "k = KStr ks" by (cases k) auto
  from 7(5) obtain ks' c cs where c: "chunks = (encode_str ks' @ '': '' @ c) # cs"
    "encode_key k = Inr ks'" "encode DefaultStr lvl v = Inr c"
    "encode_items DefaultStr lvl kvs = Inr cs"
    by (rule encode_items_Cons)
  from c(2) k have ks: "ks' = ks" by simp
  from 7(6) obtain m where n: "n = Suc m" by (cases n) auto
  have lc: "length c \<le> m"
    using 7(6) by (simp add: c(1) n)
  have sp: "list_all is_ws [CHR '' '']" by (simp add: bracket_chars)
  show ?case
  proof (cases kvs)
    case Nil
    with c(4) have cs: "cs = []" by simp
    have d: "cl @ CHR ''}'' # rest = [] \<or> \<not> is_number_char (hd (cl @ CHR ''}'' # rest))"
      using 7(8) bracket_chars(2) by (rule closing_continues_no_number)
    have "parse_value m ([CHR '' ''] @ c @ (cl @ CHR ''}'' # rest))
          = Some (v, cl @ CHR ''}'' # rest)"
      using rv c(3) lc sp d by (rule 7(1))
    then have pv: "parse_value m (CHR '' '' # (c @ cl @ CHR ''}'' # rest))
          = Some (v, cl @ CHR ''}'' # rest)"
      by simp
    have "parse_members (Suc m) (w @ encode_str ks @ '': '' @ (c @ cl @ CHR ''}'' # rest))
          = Some ([(KStr ks, v)], rest)"
      using 7(7,8) pv by (rule parse_members_last)
    then show ?thesis by (simp add: n c(1) cs Nil k ks)
  next
    case (Cons kv2 kvs')
    from c(4) have "cs \<noteq> []"
      unfolding Cons by (rule encode_items_Cons_Cons)
    then obtain c2 cs' where cs: "cs = c2 # cs'" by (cases cs) auto
    let ?tail = "newline_indent lvl @ join_with ?sep cs @ cl @ CHR ''}'' # rest"
    have ne: "kvs \<noteq> []" by (simp add: Cons)
    have "length (join_with ?sep chunks)
          = length (encode_str ks' @ '': '' @ c) + length ?sep + length (join_with ?sep cs)"
      unfolding c(1) cs by (rule join_with_length_more)
    with 7(6) have lt: "length (join_with ?sep cs) < m"
      by (simp add: n)
    have d: "CHR '','' # ?tail = [] \<or> \<not> is_number_char (hd (CHR '','' # ?tail))"
      by (simp add: bracket_chars)
    have "parse_value m ([CHR '' ''] @ c @ (CHR '','' # ?tail)) = Some (v, CHR '','' # ?tail)"
      using rv c(3) lc sp d by (rule 7(1))
    then have pv: "parse_value m (CHR '' '' # (c @ CHR '','' # ?tail)) = Some (v, CHR '','' # ?tail)"
      by simp
    have pm: "parse_members m ?tail = Some (kvs, rest)"
      using ri ne c(4) lt newline_indent_ws 7(8) by (rule 7(2))
    have "parse_members (Suc m) (w @ encode_str ks @ '': '' @ (c @ CHR '','' # ?tail))
          = Some ((KStr ks, v) # kvs, rest)"
      using 7(7) pv pm by (rule parse_members_more)
    then show ?thesis by (simp add: n c(1) cs k ks)
  qed
qed


lemma encode_representable:
  "json_representable v \<Longrightarrow> \<exists>s. encode DefaultStr lvl v = Inr s"
  "json_representable_list xs \<Longrightarrow> \<exists>cs. encode_elems DefaultStr lvl xs = Inr cs"
  "json_representable_items kvs \<Longrightarrow> \<exists>cs. encode_items DefaultStr lvl kvs = Inr cs"
proof (induction v and xs and kvs arbitrary: lvl and lvl and lvl
    rule: raw_raw_list_raw_items.induct)
  case (1 sc)
  then show ?case by (cases sc) auto
next
  case (2 xs)
  then obtain cs where "encode_elems DefaultStr (Suc lvl) xs = Inr cs" by fastforce
  then show ?case by (cases xs) auto
next
  case (3 kvs)
  then obtain cs where "encode_items DefaultStr (Suc lvl) kvs = Inr cs" by fastforce
  then show ?case by (cases kvs) auto
next
  case 4
  then show ?case by simp
next
  case (5 x xs)
  then obtain c cs where "encode DefaultStr lvl x = Inr c" "encode_elems DefaultStr lvl xs = Inr cs"
    by fastforce
  then show ?case by simp
next
  case 6
  then show ?case by simp
next
  case (7 k v kvs)
  then obtain c cs where "encode DefaultStr lvl v = Inr c" "encode_items DefaultStr lvl kvs = Inr cs"
    by fastforce
  moreover from 7(3) obtain ks where "k = KStr ks" by (cases k) auto
  ultimately show ?case by simp
qed

lemma json_loads_json_dumps:
  assumes "json_representable v" and "json_dumps DefaultStr v = Inr s"
  shows "json_loads s = Some v"
proof -
  from assms(2) have e: "encode DefaultStr 0 v = Inr s" by (simp add: json_dumps_def)
  have "parse_value (length s) ([] @ s @ []) = Some (v, [])"
    using assms(1) e by (rule parse_encode(1)) simp_all
  then show ?thesis by (simp add: json_loads_def skip_ws_def)
qed

lemma json_representable_safe:
  "json_representable v \<Longrightarrow> json_safe v"
  "json_representable_list xs \<Longrightarrow> json_safe_list xs"
  "json_representable_items kvs \<Longrightarrow> json_safe_items kvs"
proof (induction v and xs and kvs rule: raw_raw_list_raw_items.induct)
  case (1 sc)
  then show ?case by (cases sc rule: json_safe_scalar.cases) auto
qed auto

text \<open>
  C8. For every title and every well-formed value JSON can represent, other than
  \<open>None\<close> and the empty list, \<open>format_response\<close> returns the title, a colon and a
  newline followed by a JSON text, and reading that text (what follows the first
  \<open>len(title) + 2\<close> characters of the response) gives the value back: the same
  scalars, the same elements in the same order, the same keys in the same order.
\<close>

theorem format_response_round_trip:
  assumes "json_representable v" and "v \<noteq> NScalar SNone" and "v \<noteq> NList []"
  shows "\<exists>body. format_response (raw v) title = title @ '':'' @ [CHR 0x0A] @ body
            \<and> json_loads body = Some v
            \<and> json_loads (drop (length title + 2) (format_response (raw v) title)) = Some v"
proof -
  from assms(1) have "json_safe v" by (rule json_representable_safe(1))
  then have "all_scalars fixed_scalar v" by (rule json_safe_all_fixed(1))
  then have c: "convert_to_json_serializable (raw v) = Inr v" by (rule convert_raw_fixed(1))
  from encode_representable(1) [OF assms(1), of 0]
  obtain body where d: "json_dumps DefaultStr v = Inr body"
    by (auto simp: json_dumps_def)
  have f: "format_response (raw v) title = title @ '':'' @ [CHR 0x0A] @ body"
    using c assms(2,3) d by (rule format_response_json)
  have l: "json_loads body = Some v"
    using assms(1) d by (rule json_loads_json_dumps)
  have "drop (length title + 2) (format_response (raw v) title) = body"
    by (simp add: f)
  with f l show ?thesis by simp
qed

text \<open>A record with a string, an integer, a float, a null and a nested list.\<close>

theorem format_response_round_trip_witness:
  "json_representable
     (NDict [(KStr ''symbol'', NScalar (SStr ''AAPL'')),
             (KStr ''prices'', NList [NScalar (SInt (- 3)), NScalar (SFloat (FFinite ''2.5'')),
                                      NScalar SNone, NList []])])
   \<and> json_loads (drop (length ''Price Data'' + 2)
        (format_response
           (raw (NDict [(KStr ''symbol'', NScalar (SStr ''AAPL'')),
                        (KStr ''prices'', NList [NScalar (SInt (- 3)),
                                                 NScalar (SFloat (FFinite ''2.5'')),
                                                 NScalar SNone, NList []])]))
           ''Price Data''))
     = Some (NDict [(KStr ''symbol'', NScalar (SStr ''AAPL'')),
                    (KStr ''prices'', NList [NScalar (SInt (- 3)),
                                             NScalar (SFloat (FFinite ''2.5'')),
                                             NScalar SNone, NList []])])"
proof -
  let ?v = "NDict [(KStr ''symbol'', NScalar (SStr ''AAPL'')),
             (KStr ''prices'', NList [NScalar (SInt (- 3)), NScalar (SFloat (FFinite ''2.5'')),
                                      NScalar SNone, NList []])]"
  have r: "json_representable ?v" by code_simp
  have n: "?v \<noteq> NScalar SNone" "?v \<noteq> NList []" by simp_all
  from format_response_round_trip [OF r n, of "''Price Data''"]
  have "json_loads (drop (length ''Price Data'' + 2) (format_response (raw ?v) ''Price Data''))
        = Some ?v"
    by blast
  with r show ?thesis by (rule conjI)
qed

end
